theory Spec2Isabelle
  imports Complex_Main "HOL-Library.Word" "HOL-Library.Multiset" "HOL-Library.List_Lexorder"
    "HOL-Library.Product_Lexorder"
begin

section \<open>The derived-statistics selectors of the dashboard\<close>

text \<open>
  This theory embeds \<^verbatim>\<open>src/store/selectors/statisticsSelectors.ts\<close>: the result functions
  of the selectors \<^verbatim>\<open>makeSelectFiltered\<close>, \<^verbatim>\<open>makeSelectSorted\<close>, \<^verbatim>\<open>makeSelectPaginated\<close>,
  \<^verbatim>\<open>selectGlobalTotals\<close> and \<^verbatim>\<open>selectGlobalKpis\<close>. \<^verbatim>\<open>createSelector\<close> only caches the value
  of a pure result function, so each selector is modelled by its result function, applied to
  the values of its input selectors.
\<close>

subsection \<open>Strings and records\<close>

text \<open>A JavaScript string is a sequence of UTF-16 code units.\<close>

type_synonym jsstring = "16 word list"

text \<open>
  Modelled from the spec: the declaration of \<^verbatim>\<open>UserStatistic\<close> (\<^verbatim>\<open>shared/types/types.ts\<close>)
  is not among the sources. The selectors read the fields \<^verbatim>\<open>id\<close>, \<^verbatim>\<open>name\<close>,
  \<^verbatim>\<open>completedTasks\<close>, \<^verbatim>\<open>inWorkTasks\<close> and \<^verbatim>\<open>failedTasks\<close>; the spec's data model makes the
  three counts non-negative integers. The field \<^verbatim>\<open>id\<close> is called \<open>uid\<close> here.
\<close>

record UserStatistic =
  uid :: nat
  name :: jsstring
  completedTasks :: nat
  inWorkTasks :: nat
  failedTasks :: nat

subsection \<open>Built-in string operations\<close>

text \<open>
  \<^verbatim>\<open>String.prototype.trim\<close> strips the ECMAScript white space and line terminator code
  units from both ends.
\<close>

definition is_whitespace :: "16 word \<Rightarrow> bool" where
  "is_whitespace c \<longleftrightarrow>
     c \<in> {0x9, 0xA, 0xB, 0xC, 0xD, 0x20, 0xA0, 0x1680, 0x2000, 0x2001, 0x2002, 0x2003,
          0x2004, 0x2005, 0x2006, 0x2007, 0x2008, 0x2009, 0x200A, 0x2028, 0x2029, 0x202F,
          0x205F, 0x3000, 0xFEFF}"

definition trim :: "jsstring \<Rightarrow> jsstring" where
  "trim s = rev (dropWhile is_whitespace (rev (dropWhile is_whitespace s)))"

text \<open>
  \<^verbatim>\<open>String.prototype.includes\<close>: \<open>str_includes s q\<close> holds when \<open>q\<close> occurs in \<open>s\<close> as a
  contiguous run of code units.
\<close>

fun starts_with :: "'a list \<Rightarrow> 'a list \<Rightarrow> bool" where
  "starts_with s [] = True"
| "starts_with [] (c # q) = False"
| "starts_with (d # s) (c # q) = (d = c \<and> starts_with s q)"

fun str_includes :: "'a list \<Rightarrow> 'a list \<Rightarrow> bool" where
  "str_includes [] q = (q = [])"
| "str_includes (d # s) q = (starts_with (d # s) q \<or> str_includes s q)"

text \<open>
  \<^verbatim>\<open>String.prototype.toLowerCase\<close> is the platform's Unicode case mapping. The selectors take
  it as the parameter \<open>lower\<close>. For evaluation, \<open>toLowerCase_ru\<close> is that mapping on strings of
  Basic Latin and Russian Cyrillic letters (other code units are left as they are).
\<close>

definition lower_unit :: "16 word \<Rightarrow> 16 word" where
  "lower_unit c =
     (if 0x41 \<le> c \<and> c \<le> 0x5A then c + 0x20
      else if 0x410 \<le> c \<and> c \<le> 0x42F then c + 0x20
      else if 0x400 \<le> c \<and> c \<le> 0x40F then c + 0x50
      else c)"

definition toLowerCase_ru :: "jsstring \<Rightarrow> jsstring" where
  "toLowerCase_ru s = map lower_unit s"

subsection \<open>The filter stage\<close>

text \<open>
  \<^verbatim>\<open>
  (global, query, onlyActive) => {
      const q = query.trim().toLowerCase();
      let arr = q ? global.filter((u) => u.name.toLowerCase().includes(q)) : global;
      if (onlyActive) {
          arr = arr.filter((u) => (u.completedTasks + u.inWorkTasks + u.failedTasks) > 0);
      }
      return arr;
  }
  \<close>
  A string is truthy when it is not empty.
\<close>

definition makeSelectFiltered ::
  "(jsstring \<Rightarrow> jsstring) \<Rightarrow> UserStatistic list \<Rightarrow> jsstring \<Rightarrow> bool \<Rightarrow> UserStatistic list" where
  "makeSelectFiltered lower global query onlyActive =
     (let q = lower (trim query);
          arr = (if q \<noteq> [] then filter (\<lambda>u. str_includes (lower (name u)) q) global else global)
      in if onlyActive
         then filter (\<lambda>u. completedTasks u + inWorkTasks u + failedTasks u > 0) arr
         else arr)"

subsection \<open>The sort stage\<close>

text \<open>
  \<^verbatim>\<open>new Intl.Collator("ru").compare\<close> is the platform's collation for Russian. A collator
  compares two strings by comparing their collation keys, so the selectors take the key
  function \<open>key\<close> (into any linear order) as a parameter; the result of \<^verbatim>\<open>compare\<close> is
  negative, zero or positive.
\<close>

definition collator_compare :: "(jsstring \<Rightarrow> 'k::linorder) \<Rightarrow> jsstring \<Rightarrow> jsstring \<Rightarrow> int" where
  "collator_compare key a b = (if key a < key b then - 1 else if key a = key b then 0 else 1)"

text \<open>\<^verbatim>\<open>x || y\<close> on numbers: \<open>x\<close> when it is not zero, else \<open>y\<close>.\<close>

definition js_or :: "int \<Rightarrow> int \<Rightarrow> int" where
  "js_or x y = (if x \<noteq> 0 then x else y)"

text \<open>
  \<^verbatim>\<open>Array.prototype.sort(comparefn)\<close> is a stable sort (ECMAScript 2019): an element goes
  before another one when \<^verbatim>\<open>comparefn\<close> is negative, and elements that compare as equal keep
  their order. Insertion from the right computes that arrangement.
\<close>

fun insert_sorted :: "('a \<Rightarrow> 'a \<Rightarrow> int) \<Rightarrow> 'a \<Rightarrow> 'a list \<Rightarrow> 'a list" where
  "insert_sorted cmp x [] = [x]"
| "insert_sorted cmp x (y # ys) =
     (if cmp x y \<le> 0 then x # y # ys else y # insert_sorted cmp x ys)"

definition Array_sort :: "('a \<Rightarrow> 'a \<Rightarrow> int) \<Rightarrow> 'a list \<Rightarrow> 'a list" where
  "Array_sort cmp xs = foldr (insert_sorted cmp) xs []"

text \<open>
  The comparators of the source:
  \<^verbatim>\<open>(a, b) => b.completedTasks - a.completedTasks || collator.compare(a.name, b.name)\<close>
  (and the same with \<^verbatim>\<open>failedTasks\<close>, \<^verbatim>\<open>inWorkTasks\<close>), and
  \<^verbatim>\<open>(a, b) => collator.compare(a.name, b.name)\<close>.
\<close>

definition compare_desc ::
  "(UserStatistic \<Rightarrow> nat) \<Rightarrow> (jsstring \<Rightarrow> 'k::linorder) \<Rightarrow> UserStatistic \<Rightarrow> UserStatistic \<Rightarrow> int" where
  "compare_desc metric key a b =
     js_or (int (metric b) - int (metric a)) (collator_compare key (name a) (name b))"

definition compare_name ::
  "(jsstring \<Rightarrow> 'k::linorder) \<Rightarrow> UserStatistic \<Rightarrow> UserStatistic \<Rightarrow> int" where
  "compare_name key a b = collator_compare key (name a) (name b)"

text \<open>
  The \<^verbatim>\<open>switch (sortMode)\<close> of the source; \<^verbatim>\<open>sortMode\<close> is any string, and the
  \<^verbatim>\<open>default\<close> branch shares the body of \<^verbatim>\<open>case "nameAsc"\<close>. The array sorted is a copy
  (\<^verbatim>\<open>[...filtered]\<close>), so the input is not changed.
\<close>

definition makeSelectSorted ::
  "(jsstring \<Rightarrow> 'k::linorder) \<Rightarrow> UserStatistic list \<Rightarrow> string \<Rightarrow> UserStatistic list" where
  "makeSelectSorted key filtered sortMode =
     (let arr = filtered
      in if sortMode = ''completedDesc'' then Array_sort (compare_desc completedTasks key) arr
         else if sortMode = ''failedDesc'' then Array_sort (compare_desc failedTasks key) arr
         else if sortMode = ''inWorkDesc'' then Array_sort (compare_desc inWorkTasks key) arr
         else Array_sort (compare_name key) arr)"

text \<open>
  For evaluation: a collation key for Russian names, with the three levels of the collation
  algorithm. Letters compare by their place in the alphabet, without regard to case, \<^verbatim>\<open>U+0451\<close>
  and \<^verbatim>\<open>U+0401\<close> standing with \<^verbatim>\<open>U+0435\<close>; strings with the same letters compare by the
  diaeresis, and then by case, lower case first.
\<close>

definition letter_weight :: "16 word \<Rightarrow> nat" where
  "letter_weight c =
     (let d = lower_unit c in if d = 0x451 then unat (0x435 :: 16 word) else unat d)"

definition accent_weight :: "16 word \<Rightarrow> nat" where
  "accent_weight c = (if lower_unit c = 0x451 then 1 else 0)"

definition case_weight :: "16 word \<Rightarrow> nat" where
  "case_weight c = (if lower_unit c = c then 0 else 1)"

definition collation_key_ru :: "jsstring \<Rightarrow> nat list" where
  "collation_key_ru s =
     map (\<lambda>c. Suc (letter_weight c)) s @ [0] @ map (\<lambda>c. Suc (accent_weight c)) s @ [0] @
     map (\<lambda>c. Suc (case_weight c)) s"

subsection \<open>The paginate stage\<close>

text \<open>
  The numbers of the paginate stage. The callers pass integers for \<^verbatim>\<open>page\<close> and
  \<^verbatim>\<open>pageSize\<close> (the page size is 12, 1, 3 or 5), so both are integers here, of the range
  in which double-precision arithmetic on integers is exact. A division can produce a
  fraction, an infinity or \<^verbatim>\<open>NaN\<close>. Finite values are exact rationals: the only fraction,
  \<^verbatim>\<open>total / pageSize\<close>, goes straight into \<^verbatim>\<open>Math.ceil\<close>, which gives the ceiling of the
  exact quotient. The sign of a zero is not modelled (no result depends on it).
\<close>

datatype jsnum = Num rat | PosInf | NegInf | NaN

definition js_div :: "rat \<Rightarrow> rat \<Rightarrow> jsnum" where
  "js_div a b =
     (if b \<noteq> 0 then Num (a / b) else if a > 0 then PosInf else if a < 0 then NegInf else NaN)"

fun Math_ceil :: "jsnum \<Rightarrow> jsnum" where
  "Math_ceil (Num r) = Num (of_int \<lceil>r\<rceil>)"
| "Math_ceil x = x"

fun Math_max :: "jsnum \<Rightarrow> jsnum \<Rightarrow> jsnum" where
  "Math_max NaN y = NaN"
| "Math_max x NaN = NaN"
| "Math_max PosInf y = PosInf"
| "Math_max x PosInf = PosInf"
| "Math_max NegInf y = y"
| "Math_max x NegInf = x"
| "Math_max (Num a) (Num b) = Num (max a b)"

fun Math_min :: "jsnum \<Rightarrow> jsnum \<Rightarrow> jsnum" where
  "Math_min NaN y = NaN"
| "Math_min x NaN = NaN"
| "Math_min NegInf y = NegInf"
| "Math_min x NegInf = NegInf"
| "Math_min PosInf y = y"
| "Math_min x PosInf = x"
| "Math_min (Num a) (Num b) = Num (min a b)"

text \<open>\<^verbatim>\<open>x - b\<close> and \<^verbatim>\<open>x * b\<close> for a finite \<open>b\<close>.\<close>

fun js_minus :: "jsnum \<Rightarrow> rat \<Rightarrow> jsnum" where
  "js_minus (Num a) b = Num (a - b)"
| "js_minus x b = x"

fun js_times :: "jsnum \<Rightarrow> rat \<Rightarrow> jsnum" where
  "js_times (Num a) b = Num (a * b)"
| "js_times PosInf b = (if b > 0 then PosInf else if b < 0 then NegInf else NaN)"
| "js_times NegInf b = (if b > 0 then NegInf else if b < 0 then PosInf else NaN)"
| "js_times NaN b = NaN"

text \<open>
  \<^verbatim>\<open>Array.prototype.slice(start, end)\<close>: each argument goes through
  \<^verbatim>\<open>ToIntegerOrInfinity\<close> (\<^verbatim>\<open>NaN\<close> is 0, a fraction is truncated towards zero); a negative
  index counts from the end of the array; both are clamped to \<open>0 .. length\<close>.
\<close>

definition js_trunc :: "rat \<Rightarrow> int" where
  "js_trunc r = (if r \<ge> 0 then \<lfloor>r\<rfloor> else \<lceil>r\<rceil>)"

fun relative_index :: "int \<Rightarrow> jsnum \<Rightarrow> int" where
  "relative_index len NaN = 0"
| "relative_index len NegInf = 0"
| "relative_index len PosInf = len"
| "relative_index len (Num r) =
     (let i = js_trunc r in if i < 0 then max (len + i) 0 else min i len)"

definition js_slice :: "'a list \<Rightarrow> jsnum \<Rightarrow> jsnum \<Rightarrow> 'a list" where
  "js_slice xs start end' =
     (let len = int (length xs);
          k = relative_index len start;
          final = relative_index len end'
      in take (nat (final - k)) (drop (nat k) xs))"

record 'a Paginated =
  data :: "'a list"
  total_p :: nat
  totalPages :: jsnum
  currentPage :: jsnum

text \<open>
  \<^verbatim>\<open>
  (sorted, page, pageSize) => {
      const total = sorted.length;
      const totalPages = Math.max(1, Math.ceil(total / pageSize));
      const currentPage = Math.min(Math.max(1, page), totalPages);
      const data = sorted.slice((currentPage - 1) * pageSize, currentPage * pageSize);
      return { data, total, totalPages, currentPage };
  }
  \<close>
\<close>

definition makeSelectPaginated :: "'a list \<Rightarrow> int \<Rightarrow> int \<Rightarrow> 'a Paginated" where
  "makeSelectPaginated sorted' page pageSize =
     (let total = length sorted';
          totalPages = Math_max (Num 1) (Math_ceil (js_div (of_nat total) (of_int pageSize)));
          currentPage = Math_min (Math_max (Num 1) (Num (of_int page))) totalPages;
          data = js_slice sorted' (js_times (js_minus currentPage 1) (of_int pageSize))
                   (js_times currentPage (of_int pageSize))
      in \<lparr>data = data, total_p = total, totalPages = totalPages, currentPage = currentPage\<rparr>)"

text \<open>
  The spec's words for the page: \<open>clamp\<close>, and the contiguous slice \<open>[i, j)\<close> of a list, the
  elements at the indices \<open>k\<close> with \<open>i \<le> k < j\<close>.
\<close>

definition clamp :: "int \<Rightarrow> int \<Rightarrow> int \<Rightarrow> int" where
  "clamp x lo hi = (if x < lo then lo else if hi < x then hi else x)"

definition interval_slice :: "'a list \<Rightarrow> int \<Rightarrow> int \<Rightarrow> 'a list" where
  "interval_slice xs i j =
     map (\<lambda>k. xs ! k) (filter (\<lambda>k. i \<le> int k \<and> int k < j) [0..<length xs])"

subsection \<open>Double-precision arithmetic\<close>

text \<open>
  The aggregate stage adds, divides and multiplies numbers and rounds the results, so its
  numbers are IEEE 754 binary64 values: a \<open>jsnum\<close> whose finite value is a rational that
  binary64 represents. \<open>binary64 x\<close> is the number nearest to the rational \<open>x\<close>, ties going
  to the even significand: the significand has 53 bits, the spacing of the numbers around
  \<open>x\<close> is \<open>ulp \<bar>x\<bar>\<close> (never below \<open>2\<^sup>-\<^sup>1\<^sup>0\<^sup>7\<^sup>4\<close>, the spacing of the subnormal numbers), and a
  result of magnitude \<open>2\<^sup>1\<^sup>0\<^sup>2\<^sup>4\<close> or more is an infinity. The sign of a zero is not modelled.
\<close>

definition rne :: "rat \<Rightarrow> int" where
  "rne r =
     (let f = \<lfloor>r\<rfloor>; d = r - of_int f
      in if d < 1 / 2 then f else if 1 / 2 < d then f + 1 else if even f then f else f + 1)"

fun scale_up :: "nat \<Rightarrow> rat \<Rightarrow> nat" where
  "scale_up 0 x = 0"
| "scale_up (Suc n) x = (if x < 2 then 0 else Suc (scale_up n (x / 2)))"

fun scale_down :: "nat \<Rightarrow> rat \<Rightarrow> nat" where
  "scale_down 0 x = 0"
| "scale_down (Suc n) x = (if 1 \<le> x then 0 else Suc (scale_down n (2 * x)))"

definition ulp :: "rat \<Rightarrow> rat" where
  "ulp a = (if 1 \<le> a then 2 ^ scale_up 1024 a else 1 / 2 ^ scale_down 1022 a) / 2 ^ 52"

definition binary64 :: "rat \<Rightarrow> jsnum" where
  "binary64 x =
     (if x = 0 then Num 0
      else let a = \<bar>x\<bar>; u = ulp a; y = of_int (rne (a / u)) * u
           in if 2 ^ 1024 \<le> y then (if 0 < x then PosInf else NegInf)
              else Num (if 0 < x then y else - y))"

text \<open>\<^verbatim>\<open>x + y\<close>, \<^verbatim>\<open>x / y\<close> and \<^verbatim>\<open>x * y\<close> on numbers.\<close>

fun js_plus :: "jsnum \<Rightarrow> jsnum \<Rightarrow> jsnum" where
  "js_plus (Num a) (Num b) = binary64 (a + b)"
| "js_plus NaN y = NaN"
| "js_plus x NaN = NaN"
| "js_plus PosInf NegInf = NaN"
| "js_plus NegInf PosInf = NaN"
| "js_plus PosInf y = PosInf"
| "js_plus x PosInf = PosInf"
| "js_plus NegInf y = NegInf"
| "js_plus x NegInf = NegInf"

fun js_divide :: "jsnum \<Rightarrow> jsnum \<Rightarrow> jsnum" where
  "js_divide (Num a) (Num b) =
     (if b \<noteq> 0 then binary64 (a / b)
      else if 0 < a then PosInf else if a < 0 then NegInf else NaN)"
| "js_divide NaN y = NaN"
| "js_divide x NaN = NaN"
| "js_divide (Num a) y = Num 0"
| "js_divide PosInf (Num b) = (if 0 \<le> b then PosInf else NegInf)"
| "js_divide NegInf (Num b) = (if 0 \<le> b then NegInf else PosInf)"
| "js_divide x y = NaN"

fun js_multiply :: "jsnum \<Rightarrow> jsnum \<Rightarrow> jsnum" where
  "js_multiply (Num a) (Num b) = binary64 (a * b)"
| "js_multiply NaN y = NaN"
| "js_multiply x NaN = NaN"
| "js_multiply (Num a) y = js_times y a"
| "js_multiply x (Num b) = js_times x b"
| "js_multiply PosInf y = y"
| "js_multiply NegInf PosInf = NegInf"
| "js_multiply NegInf NegInf = PosInf"

text \<open>
  \<^verbatim>\<open>Math.round(x)\<close> is the integer nearest to \<open>x\<close>, the larger one of two. \<^verbatim>\<open>x.toFixed(2)\<close>
  writes the integer \<open>n\<close> for which \<open>n / 100\<close> is nearest to \<open>\<bar>x\<bar>\<close> (the larger one of two)
  with two decimals, unless \<open>\<bar>x\<bar> \<ge> 10\<^sup>2\<^sup>1\<close>, when it writes \<open>x\<close> itself; the unary \<^verbatim>\<open>+\<close> reads
  the decimal back as the nearest number. A number is truthy unless it is 0 or \<^verbatim>\<open>NaN\<close>.
\<close>

fun Math_round :: "jsnum \<Rightarrow> jsnum" where
  "Math_round (Num r) = Num (of_int \<lfloor>r + 1 / 2\<rfloor>)"
| "Math_round x = x"

fun toFixed2 :: "jsnum \<Rightarrow> jsnum" where
  "toFixed2 (Num r) =
     (if 10 ^ 21 \<le> \<bar>r\<bar> then Num r
      else let n = \<lfloor>\<bar>r\<bar> * 100 + 1 / 2\<rfloor>
           in binary64 ((if 0 \<le> r then of_int n else - of_int n) / 100))"
| "toFixed2 x = x"

fun truthy :: "jsnum \<Rightarrow> bool" where
  "truthy (Num r) = (r \<noteq> 0)"
| "truthy NaN = False"
| "truthy x = True"

subsection \<open>The aggregate stage\<close>

text \<open>
  A count of a record is the number with that integer value (a count is an integer that
  binary64 represents, as every integer up to \<open>2\<^sup>5\<^sup>3\<close> is).
  \<^verbatim>\<open>selectGlobalTotals\<close>: \<^verbatim>\<open>global.reduce((acc, u) => { acc.completed += u.completedTasks;
  acc.inWork += u.inWorkTasks; acc.failed += u.failedTasks; return acc; },
  { completed: 0, inWork: 0, failed: 0 })\<close>.
\<close>

definition of_count :: "nat \<Rightarrow> jsnum" where
  "of_count n = Num (of_nat n)"

record Totals =
  completed_t :: jsnum
  inWork_t :: jsnum
  failed_t :: jsnum

definition selectGlobalTotals :: "UserStatistic list \<Rightarrow> Totals" where
  "selectGlobalTotals global =
     fold (\<lambda>u acc. acc\<lparr>completed_t := js_plus (completed_t acc) (of_count (completedTasks u)),
                        inWork_t := js_plus (inWork_t acc) (of_count (inWorkTasks u)),
                        failed_t := js_plus (failed_t acc) (of_count (failedTasks u))\<rparr>)
       global \<lparr>completed_t = Num 0, inWork_t = Num 0, failed_t = Num 0\<rparr>"

record Leader =
  place :: nat
  id_l :: nat
  name_l :: jsstring
  completed_l :: nat

record Kpis =
  users :: nat
  total_k :: jsnum
  completed :: jsnum
  inWork :: jsnum
  failed :: jsnum
  doneRate :: jsnum
  avgCompletedPerUser :: jsnum
  top_k :: "UserStatistic option"
  leaderboard :: "Leader list"

text \<open>
  \<^verbatim>\<open>
  const users = global.length;
  let completed = 0, inWork = 0, failed = 0;
  for (const u of global) {
      completed += u.completedTasks; inWork += u.inWorkTasks; failed += u.failedTasks;
  }
  const total = completed + inWork + failed;
  const doneRate = total ? Math.round((completed / total) * 100) : 0;
  const avgCompletedPerUser = users ? +(completed / users).toFixed(2) : 0;
  const byCompleted = [...global].sort(
      (a, b) => b.completedTasks - a.completedTasks || collator.compare(a.name, b.name));
  const top = byCompleted[0]?.completedTasks > 0 ? byCompleted[0] : null;
  const leaderboard = byCompleted.filter((u) => u.completedTasks > 0).slice(0, 5)
      .map((u, i) => ({ place: i + 1, id: u.id, name: u.name, completed: u.completedTasks }));
  \<close>
  \<^verbatim>\<open>null\<close> is \<open>None\<close>. On an empty array \<^verbatim>\<open>byCompleted[0]?.completedTasks\<close> is
  \<^verbatim>\<open>undefined\<close>, and \<^verbatim>\<open>undefined > 0\<close> is false.
\<close>

definition sum_counts :: "UserStatistic list \<Rightarrow> jsnum \<times> jsnum \<times> jsnum" where
  "sum_counts global =
     fold (\<lambda>u (completed, inWork, failed).
             (js_plus completed (of_count (completedTasks u)),
              js_plus inWork (of_count (inWorkTasks u)),
              js_plus failed (of_count (failedTasks u))))
       global (Num 0, Num 0, Num 0)"

definition leader :: "nat \<times> UserStatistic \<Rightarrow> Leader" where
  "leader iu = (case iu of (i, u) \<Rightarrow>
     \<lparr>place = i + 1, id_l = uid u, name_l = name u, completed_l = completedTasks u\<rparr>)"

definition selectGlobalKpis :: "(jsstring \<Rightarrow> 'k::linorder) \<Rightarrow> UserStatistic list \<Rightarrow> Kpis" where
  "selectGlobalKpis key global =
     (let users = length global;
          (completed, inWork, failed) = sum_counts global;
          total = js_plus (js_plus completed inWork) failed;
          doneRate = (if truthy total
                      then Math_round (js_multiply (js_divide completed total) (Num 100))
                      else Num 0);
          avgCompletedPerUser = (if users \<noteq> 0
                      then toFixed2 (js_divide completed (of_count users))
                      else Num 0);
          byCompleted = Array_sort (compare_desc completedTasks key) global;
          top = (case byCompleted of [] \<Rightarrow> None
                 | u # _ \<Rightarrow> if completedTasks u > 0 then Some u else None);
          leaderboard = map leader
              (enumerate 0 (js_slice (filter (\<lambda>u. completedTasks u > 0) byCompleted) (Num 0) (Num 5)))
      in \<lparr>users = users, total_k = total, completed = completed, inWork = inWork, failed = failed,
          doneRate = doneRate, avgCompletedPerUser = avgCompletedPerUser, top_k = top,
          leaderboard = leaderboard\<rparr>)"

section \<open>Notions used to state the properties\<close>

text \<open>
  The order the descending modes sort by: the metric decreases, and among equal metrics the
  collation key of the name does not decrease. \<open>named_metric\<close> is the metric a descending
  mode names, and \<open>desc_key\<close> is a sort key that induces the order.
\<close>

definition desc_order ::
  "(UserStatistic \<Rightarrow> nat) \<Rightarrow> (jsstring \<Rightarrow> 'k::linorder) \<Rightarrow> UserStatistic \<Rightarrow> UserStatistic \<Rightarrow> bool" where
  "desc_order metric key a b \<longleftrightarrow>
     metric a > metric b \<or> (metric a = metric b \<and> key (name a) \<le> key (name b))"

definition named_metric :: "string \<Rightarrow> UserStatistic \<Rightarrow> nat" where
  "named_metric m =
     (if m = ''completedDesc'' then completedTasks
      else if m = ''failedDesc'' then failedTasks else inWorkTasks)"

definition desc_key ::
  "(UserStatistic \<Rightarrow> nat) \<Rightarrow> (jsstring \<Rightarrow> 'k::linorder) \<Rightarrow> UserStatistic \<Rightarrow> int \<times> 'k" where
  "desc_key metric key u = (- int (metric u), key (name u))"

text \<open>The records of the spec's scenarios; the names are in Cyrillic.\<close>

definition Anya :: jsstring where
  "Anya = [0x410, 0x43D, 0x44F]"

definition Boris :: jsstring where
  "Boris = [0x411, 0x43E, 0x440, 0x438, 0x441]"

definition Vera :: jsstring where
  "Vera = [0x412, 0x435, 0x440, 0x430]"

definition anya :: UserStatistic where
  "anya = \<lparr>uid = 1, name = Anya, completedTasks = 5, inWorkTasks = 0, failedTasks = 0\<rparr>"

definition boris :: UserStatistic where
  "boris = \<lparr>uid = 2, name = Boris, completedTasks = 5, inWorkTasks = 1, failedTasks = 0\<rparr>"

definition vera :: UserStatistic where
  "vera = \<lparr>uid = 3, name = Vera, completedTasks = 2, inWorkTasks = 0, failedTasks = 3\<rparr>"

definition Gleb :: jsstring where
  "Gleb = [0x413, 0x43B, 0x435, 0x431]"

definition gleb :: UserStatistic where
  "gleb = \<lparr>uid = 4, name = Gleb, completedTasks = 0, inWorkTasks = 0, failedTasks = 0\<rparr>"

text \<open>The spec's derived \<open>total\<close> of a record.\<close>

definition total_tasks :: "UserStatistic \<Rightarrow> nat" where
  "total_tasks u = completedTasks u + inWorkTasks u + failedTasks u"

text \<open>
  The spec's words for the paginate stage: \<open>pages_of\<close> is \<open>max(1, ceil(total / pageSize))\<close>,
  and \<open>paginate_claim\<close> says that the stage returns the length, that number of pages, the
  clamped page and the contiguous slice of that page.
\<close>

definition pages_of :: "nat \<Rightarrow> int \<Rightarrow> int" where
  "pages_of len pageSize = max 1 \<lceil>rat_of_nat len / rat_of_int pageSize\<rceil>"

definition paginate_claim :: "'a list \<Rightarrow> int \<Rightarrow> int \<Rightarrow> bool" where
  "paginate_claim X p n \<longleftrightarrow>
     (let R = makeSelectPaginated X p n;
          tp = pages_of (length X) n;
          cp = clamp p 1 tp
      in total_p R = length X \<and> totalPages R = Num (of_int tp) \<and> currentPage R = Num (of_int cp) \<and>
         data R = interval_slice X ((cp - 1) * n) (cp * n) \<and> (length X = 0 \<longrightarrow> data R = []))"

text \<open>
  \<open>clamps_pageSize\<close> says that the stage treats the page size as if it were clamped to a
  minimum of 1, and that the number of pages is finite.
\<close>

definition is_finite :: "jsnum \<Rightarrow> bool" where
  "is_finite x = (case x of Num r \<Rightarrow> True | _ \<Rightarrow> False)"

definition clamps_pageSize :: "'a list \<Rightarrow> int \<Rightarrow> int \<Rightarrow> bool" where
  "clamps_pageSize X p n \<longleftrightarrow>
     makeSelectPaginated X p n = makeSelectPaginated X p (max 1 n) \<and>
     is_finite (totalPages (makeSelectPaginated X p n))"


text \<open>
  A record with the given completed, in-work and failed counts.
\<close>

definition stat :: "nat \<Rightarrow> nat \<Rightarrow> nat \<Rightarrow> UserStatistic" where
  "stat c w f = \<lparr>uid = 0, name = [], completedTasks = c, inWorkTasks = w, failedTasks = f\<rparr>"

text \<open>
  The claim on the totals and rates in the spec's words, with exact arithmetic: the totals
  are the sums, \<open>doneRate\<close> is \<open>completed / total * 100\<close> rounded to the nearest integer
  (halves upwards), and \<open>avgCompletedPerUser\<close> is the number of the decimal with two places
  nearest to \<open>completed / userCount\<close>.
\<close>

definition round_half_up :: "rat \<Rightarrow> int" where
  "round_half_up p = \<lfloor>p + 1 / 2\<rfloor>"

definition aggregate_claim :: "(jsstring \<Rightarrow> 'k::linorder) \<Rightarrow> UserStatistic list \<Rightarrow> bool" where
  "aggregate_claim key X \<longleftrightarrow>
     (let K = selectGlobalKpis key X;
          C = sum_list (map completedTasks X);
          W = sum_list (map inWorkTasks X);
          F = sum_list (map failedTasks X);
          T = C + W + F
      in completed K = of_count C \<and> inWork K = of_count W \<and> failed K = of_count F \<and>
         selectGlobalTotals X = \<lparr>completed_t = of_count C, inWork_t = of_count W, failed_t = of_count F\<rparr> \<and>
         doneRate K =
           (if 0 < T then Num (of_int (round_half_up (100 * of_nat C / of_nat T))) else Num 0) \<and>
         avgCompletedPerUser K =
           (if 0 < length X
            then binary64 (of_int (round_half_up (100 * of_nat C / of_nat (length X))) / 100)
            else Num 0))"

text \<open>
  \<open>rounds_to p d\<close>: the integer \<open>d\<close> is \<open>p\<close> rounded to the nearest integer, where a \<open>p\<close>
  exactly halfway between two integers may go to either of them.
\<close>

definition half_integer :: "rat \<Rightarrow> bool" where
  "half_integer p \<longleftrightarrow> p - of_int \<lfloor>p\<rfloor> = 1 / 2"

definition rounds_to :: "rat \<Rightarrow> int \<Rightarrow> bool" where
  "rounds_to p d \<longleftrightarrow>
     d = round_half_up p \<or> (half_integer p \<and> d = round_half_up p - 1)"

section \<open>Facts about the models of the built-in operations\<close>

subsection \<open>Strings\<close>

lemma starts_with_iff: "starts_with s q \<longleftrightarrow> (\<exists>t. s = q @ t)"
  by (induction s q rule: starts_with.induct) auto

lemma includes_iff: "str_includes s q \<longleftrightarrow> (\<exists>p t. s = p @ q @ t)"
proof (induction s)
  case Nil
  then show ?case by auto
next
  case (Cons d s)
  show ?case
  proof
    assume "str_includes (d # s) q"
    then consider "starts_with (d # s) q" | "str_includes s q" by auto
    then show "\<exists>p t. d # s = p @ q @ t"
    proof cases
      case 1
      then obtain t where "d # s = q @ t" using starts_with_iff by blast
      then have "d # s = [] @ q @ t" by simp
      then show ?thesis by blast
    next
      case 2
      then obtain p t where "s = p @ q @ t" using Cons.IH by blast
      then have "d # s = (d # p) @ q @ t" by simp
      then show ?thesis by blast
    qed
  next
    assume "\<exists>p t. d # s = p @ q @ t"
    then obtain p t where pt: "d # s = p @ q @ t" by blast
    show "str_includes (d # s) q"
    proof (cases p)
      case Nil
      then have "starts_with (d # s) q" using pt starts_with_iff by fastforce
      then show ?thesis by simp
    next
      case (Cons e p')
      then have "s = p' @ q @ t" using pt by simp
      then have "str_includes s q" using Cons.IH by blast
      then show ?thesis by simp
    qed
  qed
qed

lemma includes_empty: "str_includes s []"
  by (cases s) simp_all



subsection \<open>Sorting\<close>

text \<open>
  A comparator that agrees with a sort key makes \<open>Array_sort\<close> the stable sort by that key.
\<close>

lemma insert_sorted_insort_key:
  assumes "\<And>a b. cmp a b \<le> 0 \<longleftrightarrow> f a \<le> f b"
  shows "insert_sorted cmp x ys = insort_key f x ys"
  by (induction ys) (simp_all add: assms)

lemma Array_sort_sort_key:
  assumes "\<And>a b. cmp a b \<le> 0 \<longleftrightarrow> f a \<le> f b"
  shows "Array_sort cmp xs = sort_key f xs"
  by (induction xs)
    (simp_all add: Array_sort_def sort_key_def insert_sorted_insort_key [of cmp f, OF assms])

lemma compare_desc_le:
  "compare_desc metric key a b \<le> 0 \<longleftrightarrow> desc_key metric key a \<le> desc_key metric key b"
  by (auto simp: compare_desc_def js_or_def collator_compare_def desc_key_def)

lemma compare_name_le: "compare_name key a b \<le> 0 \<longleftrightarrow> key (name a) \<le> key (name b)"
  by (auto simp: compare_name_def collator_compare_def)

lemma sort_desc: "Array_sort (compare_desc metric key) xs = sort_key (desc_key metric key) xs"
  by (rule Array_sort_sort_key) (rule compare_desc_le)

lemma sort_name: "Array_sort (compare_name key) xs = sort_key (\<lambda>u. key (name u)) xs"
  by (rule Array_sort_sort_key) (rule compare_name_le)

lemma desc_key_le:
  "desc_key metric key a \<le> desc_key metric key b \<longleftrightarrow> desc_order metric key a b"
  by (auto simp: desc_key_def desc_order_def)

lemma desc_key_eq:
  "desc_key metric key u = (- int n, k) \<longleftrightarrow> metric u = n \<and> key (name u) = k"
  by (auto simp: desc_key_def)

lemma sorted_desc:
  "sorted_wrt (desc_order metric key) (Array_sort (compare_desc metric key) xs)"
proof -
  have "sorted (map (desc_key metric key) (sort_key (desc_key metric key) xs))"
    by (rule sorted_sort_key)
  then show ?thesis
    by (simp add: sort_desc sorted_map desc_key_le)
qed

lemma stable_desc:
  "filter (\<lambda>u. metric u = n \<and> key (name u) = k) (Array_sort (compare_desc metric key) xs)
     = filter (\<lambda>u. metric u = n \<and> key (name u) = k) xs"
  using sort_key_stable [of "desc_key metric key" "(- int n, k)" xs]
  by (simp add: sort_desc desc_key_eq)

lemma sorted_name:
  "sorted_wrt (\<lambda>a b. key (name a) \<le> key (name b)) (Array_sort (compare_name key) xs)"
proof -
  have "sorted (map (\<lambda>u. key (name u)) (sort_key (\<lambda>u. key (name u)) xs))"
    by (rule sorted_sort_key)
  then show ?thesis
    by (simp add: sort_name sorted_map)
qed

lemma stable_name:
  "filter (\<lambda>u. key (name u) = k) (Array_sort (compare_name key) xs)
     = filter (\<lambda>u. key (name u) = k) xs"
  using sort_key_stable [of "\<lambda>u. key (name u)" k xs] by (simp add: sort_name)

lemma mset_insert_sorted: "mset (insert_sorted cmp x ys) = add_mset x (mset ys)"
  by (induction ys) simp_all

lemma mset_Array_sort: "mset (Array_sort cmp xs) = mset xs"
  by (induction xs) (simp_all add: Array_sort_def mset_insert_sorted)

lemma idem_desc:
  "Array_sort (compare_desc metric key) (Array_sort (compare_desc metric key) xs)
     = Array_sort (compare_desc metric key) xs"
  by (simp add: sort_desc sort_key_id_if_sorted)

lemma idem_name:
  "Array_sort (compare_name key) (Array_sort (compare_name key) xs)
     = Array_sort (compare_name key) xs"
  by (simp add: sort_name sort_key_id_if_sorted)

lemma sorted_desc_mode:
  assumes "m = ''completedDesc'' \<or> m = ''failedDesc'' \<or> m = ''inWorkDesc''"
  shows "makeSelectSorted key X m = Array_sort (compare_desc (named_metric m) key) X"
  using assms by (auto simp: makeSelectSorted_def named_metric_def)

lemma key_Anya_Boris: "collation_key_ru Anya < collation_key_ru Boris"
  by (simp add: collation_key_ru_def Anya_def Boris_def letter_weight_def lower_unit_def)

section \<open>The sort stage: properties\<close>

text \<open>
  Claim C2. For each of the modes \<^verbatim>\<open>completedDesc\<close>, \<^verbatim>\<open>failedDesc\<close> and \<^verbatim>\<open>inWorkDesc\<close> the
  output of the sort stage is ordered by the named metric, descending, and among records with
  the same metric by the collator's order of the names, ascending (the order of the collation
  keys, not of the code units); records with the same metric and the same collation key keep
  the order they have in the input. The three records named Anya (5 completed), Boris (5
  completed) and Vera (2 completed), the first two in the collator's order, come out as Anya,
  Boris, Vera under \<^verbatim>\<open>completedDesc\<close>, from the spec's input order and from the reverse one.
\<close>

theorem sort_desc_modes:
  "(m = ''completedDesc'' \<or> m = ''failedDesc'' \<or> m = ''inWorkDesc'' \<longrightarrow>
      sorted_wrt (desc_order (named_metric m) key) (makeSelectSorted key X m) \<and>
      (\<forall>n k. filter (\<lambda>u. named_metric m u = n \<and> key (name u) = k) (makeSelectSorted key X m)
            = filter (\<lambda>u. named_metric m u = n \<and> key (name u) = k) X)) \<and>
   (name a = Anya \<and> completedTasks a = 5 \<and> name b = Boris \<and> completedTasks b = 5 \<and>
    name v = Vera \<and> completedTasks v = 2 \<and> key Anya < key Boris \<longrightarrow>
      makeSelectSorted key [a, b, v] ''completedDesc'' = [a, b, v] \<and>
      makeSelectSorted key [v, b, a] ''completedDesc'' = [a, b, v])"
proof (intro conjI impI allI)
  assume m: "m = ''completedDesc'' \<or> m = ''failedDesc'' \<or> m = ''inWorkDesc''"
  show "sorted_wrt (desc_order (named_metric m) key) (makeSelectSorted key X m)"
    by (simp add: sorted_desc_mode [OF m] sorted_desc)
  show "filter (\<lambda>u. named_metric m u = n \<and> key (name u) = k) (makeSelectSorted key X m)
          = filter (\<lambda>u. named_metric m u = n \<and> key (name u) = k) X" for n k
    by (simp add: sorted_desc_mode [OF m] stable_desc)
next
  assume s: "name a = Anya \<and> completedTasks a = 5 \<and> name b = Boris \<and> completedTasks b = 5 \<and>
    name v = Vera \<and> completedTasks v = 2 \<and> key Anya < key Boris"
  then have k: "\<not> key Boris < key Anya" "key Boris \<noteq> key Anya"
    by auto
  show "makeSelectSorted key [a, b, v] ''completedDesc'' = [a, b, v]"
    using s k
    by (simp add: makeSelectSorted_def Array_sort_def compare_desc_def js_or_def
        collator_compare_def)
  show "makeSelectSorted key [v, b, a] ''completedDesc'' = [a, b, v]"
    using s k
    by (simp add: makeSelectSorted_def Array_sort_def compare_desc_def js_or_def
        collator_compare_def)
qed

theorem sort_desc_modes_witness:
  "collation_key_ru Anya < collation_key_ru Boris \<and>
   sorted_wrt (desc_order completedTasks collation_key_ru)
     (makeSelectSorted collation_key_ru [vera, boris, anya] ''completedDesc'') \<and>
   makeSelectSorted collation_key_ru [anya, boris, vera] ''completedDesc'' = [anya, boris, vera] \<and>
   makeSelectSorted collation_key_ru [vera, boris, anya] ''completedDesc'' = [anya, boris, vera]"
proof -
  have k: "collation_key_ru Anya < collation_key_ru Boris"
    by (rule key_Anya_Boris)
  have h: "name anya = Anya \<and> completedTasks anya = 5 \<and> name boris = Boris \<and>
      completedTasks boris = 5 \<and> name vera = Vera \<and> completedTasks vera = 2 \<and>
      collation_key_ru Anya < collation_key_ru Boris"
    using k by (simp add: anya_def boris_def vera_def)
  have n: "named_metric ''completedDesc'' = completedTasks"
    by (simp add: named_metric_def)
  show ?thesis
    using sort_desc_modes [of "''completedDesc''" collation_key_ru "[vera, boris, anya]"
        anya boris vera] h k
    unfolding n by blast
qed

text \<open>
  Claim C7. A sort mode outside the four enumerated ones is sorted exactly as \<^verbatim>\<open>nameAsc\<close>:
  by the collator's order of the names alone, ascending, records with the same collation key
  keeping their input order. The stage has no failing branch: it returns a list for every
  mode string.
\<close>

theorem sort_unknown_mode:
  assumes "m \<notin> {''completedDesc'', ''failedDesc'', ''inWorkDesc'', ''nameAsc''}"
  shows "makeSelectSorted key X m = makeSelectSorted key X ''nameAsc'' \<and>
    sorted_wrt (\<lambda>a b. key (name a) \<le> key (name b)) (makeSelectSorted key X m) \<and>
    (\<forall>k. filter (\<lambda>u. key (name u) = k) (makeSelectSorted key X m)
          = filter (\<lambda>u. key (name u) = k) X)"
  using assms by (simp add: makeSelectSorted_def sorted_name stable_name)

theorem sort_unknown_mode_witness:
  "''byPhase'' \<notin> {''completedDesc'', ''failedDesc'', ''inWorkDesc'', ''nameAsc''} \<and>
   makeSelectSorted collation_key_ru [vera, boris, anya] ''byPhase'' = [anya, boris, vera] \<and>
   makeSelectSorted collation_key_ru [vera, boris, anya] ''nameAsc'' = [anya, boris, vera]"
  using sort_unknown_mode [of "''byPhase''" collation_key_ru "[vera, boris, anya]"]
  by (simp add: makeSelectSorted_def Array_sort_def compare_name_def collator_compare_def
      collation_key_ru_def anya_def boris_def vera_def Anya_def Boris_def Vera_def
      letter_weight_def lower_unit_def)

text \<open>
  Claim C8. Sorting is idempotent: sorting the output of the sort stage again in the same
  mode gives the same list, for every mode string.
\<close>

theorem sort_idempotent:
  "makeSelectSorted key (makeSelectSorted key X m) m = makeSelectSorted key X m"
  by (simp add: makeSelectSorted_def idem_desc idem_name)

text \<open>
  Claim C10. The output of the sort stage is a permutation of its input: the same multiset of
  records and the same length, for every mode string.
\<close>

theorem sort_permutation:
  "mset (makeSelectSorted key X m) = mset X \<and> length (makeSelectSorted key X m) = length X"
proof -
  have "mset (makeSelectSorted key X m) = mset X"
    by (simp add: makeSelectSorted_def mset_Array_sort)
  then show ?thesis
    using mset_eq_length by blast
qed


section \<open>The filter stage: properties\<close>

text \<open>
  Claim C3. The filter stage returns exactly the records of the input, in input order, whose
  lower-cased name contains the trimmed, lower-cased query as a contiguous substring and,
  when \<^verbatim>\<open>onlyActive\<close> is set, whose total task count is greater than 0. When the trimmed
  query is empty the name test passes every record (lower-casing the empty string gives the
  empty string).
\<close>

theorem filter_stage:
  "makeSelectFiltered lower X q onlyActive =
     filter (\<lambda>u. (\<exists>p r. lower (name u) = p @ lower (trim q) @ r) \<and>
                 (onlyActive \<longrightarrow> 0 < total_tasks u)) X \<and>
   (lower [] = [] \<and> trim q = [] \<longrightarrow>
      makeSelectFiltered lower X q onlyActive = filter (\<lambda>u. onlyActive \<longrightarrow> 0 < total_tasks u) X)"
proof -
  have a: "makeSelectFiltered lower X q onlyActive =
     filter (\<lambda>u. str_includes (lower (name u)) (lower (trim q)) \<and>
                 (onlyActive \<longrightarrow> 0 < total_tasks u)) X"
    by (simp add: makeSelectFiltered_def Let_def includes_empty total_tasks_def)
  have b: "makeSelectFiltered lower X q onlyActive =
     filter (\<lambda>u. (\<exists>p r. lower (name u) = p @ lower (trim q) @ r) \<and>
                 (onlyActive \<longrightarrow> 0 < total_tasks u)) X"
    unfolding a by (simp add: includes_iff)
  have c: "makeSelectFiltered lower X q onlyActive
      = filter (\<lambda>u. onlyActive \<longrightarrow> 0 < total_tasks u) X"
    if "lower [] = [] \<and> trim q = []"
    using that by (simp add: makeSelectFiltered_def Let_def total_tasks_def)
  show ?thesis
    using b c by blast
qed

theorem filter_stage_witness:
  "toLowerCase_ru [] = [] \<and> trim [0x20, 0x20] = [] \<and>
   makeSelectFiltered toLowerCase_ru [anya, gleb, vera] [0x20, 0x20] True = [anya, vera] \<and>
   makeSelectFiltered toLowerCase_ru [anya, gleb, vera] [0x20, 0x20] False = [anya, gleb, vera]"
proof -
  have h: "toLowerCase_ru [] = [] \<and> trim [0x20, 0x20] = []"
    by (simp add: toLowerCase_ru_def trim_def is_whitespace_def)
  have t: "0 < total_tasks anya" "\<not> 0 < total_tasks gleb" "0 < total_tasks vera"
    by (simp_all add: total_tasks_def anya_def gleb_def vera_def)
  show ?thesis
    using filter_stage [of toLowerCase_ru "[anya, gleb, vera]" "[0x20, 0x20]" True, THEN conjunct2]
      filter_stage [of toLowerCase_ru "[anya, gleb, vera]" "[0x20, 0x20]" False, THEN conjunct2]
      h t
    by simp
qed

text \<open>
  The spec's scenario: the query \<^verbatim>\<open>U+0020 U+0412 U+0415 U+0420\<close> (upper case, with a leading
  blank) matches only the record named Vera.
\<close>

lemma filter_query_example:
  "makeSelectFiltered toLowerCase_ru [anya, boris, vera] [0x20, 0x412, 0x415, 0x420] False = [vera]"
  by (simp add: makeSelectFiltered_def trim_def is_whitespace_def toLowerCase_ru_def lower_unit_def
      anya_def boris_def vera_def Anya_def Boris_def Vera_def)

text \<open>
  Claim C9. Filtering is monotone: with the empty query and \<^verbatim>\<open>onlyActive\<close> off the output
  is as long as the input, and for every query the output with \<^verbatim>\<open>onlyActive\<close> on is no
  longer than the output with it off.
\<close>

theorem filter_monotone:
  "(lower [] = [] \<longrightarrow> length (makeSelectFiltered lower X [] False) = length X) \<and>
   length (makeSelectFiltered lower X q True) \<le> length (makeSelectFiltered lower X q False)"
  by (simp add: makeSelectFiltered_def Let_def trim_def)

theorem filter_monotone_witness:
  "toLowerCase_ru [] = [] \<and>
   length (makeSelectFiltered toLowerCase_ru [anya, gleb, vera] [] False) = 3 \<and>
   length (makeSelectFiltered toLowerCase_ru [anya, gleb, vera] [0x430] True)
     \<le> length (makeSelectFiltered toLowerCase_ru [anya, gleb, vera] [0x430] False)"
proof -
  have h: "toLowerCase_ru [] = []"
    by (simp add: toLowerCase_ru_def)
  show ?thesis
    using filter_monotone [of toLowerCase_ru "[anya, gleb, vera]" "[0x430]"] h by simp
qed


section \<open>The paginate stage: slices and pages\<close>

lemma filter_upt_interval:
  "filter (\<lambda>k. a \<le> k \<and> k < b) [0..<n] = [a..<min b n]"
proof (induction n)
  case 0
  then show ?case by simp
next
  case (Suc n)
  show ?case
  proof (cases "a \<le> n \<and> n < b")
    case True
    then have "min b (Suc n) = Suc n" "min b n = n"
      by auto
    then show ?thesis
      using Suc True by simp
  next
    case False
    then have "[a..<min b (Suc n)] = [a..<min b n]"
      by (auto simp: min_def)
    then show ?thesis
      using Suc False by auto
  qed
qed

lemma map_nth_upt: "b \<le> length xs \<Longrightarrow> map (\<lambda>k. xs ! k) [a..<b] = drop a (take b xs)"
  by (rule nth_equalityI) auto

lemma interval_slice_nat:
  assumes "0 \<le> i"
  shows "interval_slice xs i j = drop (nat i) (take (nat j) xs)"
proof -
  have "(\<lambda>k. i \<le> int k \<and> int k < j) = (\<lambda>k. nat i \<le> k \<and> k < nat j)"
    using assms by (intro ext) auto
  then have "interval_slice xs i j = map (\<lambda>k. xs ! k) [nat i..<min (nat j) (length xs)]"
    by (simp add: interval_slice_def filter_upt_interval)
  also have "\<dots> = drop (nat i) (take (min (nat j) (length xs)) xs)"
    by (simp add: map_nth_upt)
  also have "\<dots> = drop (nat i) (take (nat j) xs)"
    by (simp add: min_def)
  finally show ?thesis .
qed

lemma js_trunc_of_int: "js_trunc (of_int i) = i"
  by (simp add: js_trunc_def)

lemma relative_index_nonneg:
  "0 \<le> i \<Longrightarrow> relative_index len (Num (of_int i)) = min i len"
  by (simp add: js_trunc_of_int)

lemma js_slice_nonneg:
  assumes "0 \<le> i"  "0 \<le> j"
  shows "js_slice xs (Num (of_int i)) (Num (of_int j)) = drop (nat i) (take (nat j) xs)"
proof -
  have "js_slice xs (Num (of_int i)) (Num (of_int j))
      = take (nat (min j (int (length xs)) - min i (int (length xs)))) (drop (nat (min i (int (length xs)))) xs)"
    using assms by (simp add: js_slice_def Let_def relative_index_nonneg del: relative_index.simps)
  also have "\<dots> = drop (nat i) (take (nat j) xs)"
    using assms by (auto simp: drop_take min_def nat_diff_distrib')
  finally show ?thesis .
qed


lemma pages_of_ge1: "1 \<le> pages_of len n"
  by (simp add: pages_of_def)

lemma clamp_min_max: "1 \<le> tp \<Longrightarrow> clamp p 1 tp = min (max 1 p) tp"
  by (auto simp: clamp_def)

lemma clamp_range: "1 \<le> tp \<Longrightarrow> 1 \<le> clamp p 1 tp \<and> clamp p 1 tp \<le> tp"
  by (auto simp: clamp_def)

lemma totalPages_pos:
  assumes "1 \<le> n"
  shows "Math_max (Num 1) (Math_ceil (js_div (of_nat len) (of_int n))) = Num (of_int (pages_of len n))"
proof -
  have "js_div (of_nat len) (of_int n) = Num (rat_of_nat len / rat_of_int n)"
    using assms by (simp add: js_div_def)
  then show ?thesis
    by (simp add: pages_of_def)
qed

lemma currentPage_pos:
  assumes "1 \<le> tp"
  shows "Math_min (Math_max (Num 1) (Num (of_int p))) (Num (of_int tp)) = Num (of_int (clamp p 1 tp))"
proof -
  have "Math_min (Math_max (Num 1) (Num (of_int p))) (Num (of_int tp))
      = Num (min (max 1 (rat_of_int p)) (rat_of_int tp))"
    by simp
  also have "min (max 1 (rat_of_int p)) (rat_of_int tp) = rat_of_int (min (max 1 p) tp)"
    by (simp add: of_int_max of_int_min)
  finally show ?thesis
    using assms by (simp add: clamp_min_max)
qed

lemma paginate_pos:
  assumes "1 \<le> n"
  shows "makeSelectPaginated X p n =
     \<lparr>data = drop (nat ((clamp p 1 (pages_of (length X) n) - 1) * n))
               (take (nat (clamp p 1 (pages_of (length X) n) * n)) X),
      total_p = length X,
      totalPages = Num (of_int (pages_of (length X) n)),
      currentPage = Num (of_int (clamp p 1 (pages_of (length X) n)))\<rparr>"
proof -
  define tp where "tp = pages_of (length X) n"
  define cp where "cp = clamp p 1 tp"
  have tp: "1 \<le> tp"
    by (simp add: tp_def pages_of_ge1)
  then have cp: "1 \<le> cp"
    using clamp_range [of tp p] by (simp add: cp_def)
  have a: "Math_max (Num 1) (Math_ceil (js_div (of_nat (length X)) (of_int n))) = Num (of_int tp)"
    using assms by (simp add: totalPages_pos tp_def)
  have b: "Math_min (Math_max (Num 1) (Num (of_int p))) (Num (of_int tp)) = Num (of_int cp)"
    using tp by (simp only: currentPage_pos cp_def)
  have s1: "js_times (js_minus (Num (of_int cp)) 1) (of_int n) = Num (of_int ((cp - 1) * n))"
    by simp
  have s2: "js_times (Num (of_int cp)) (of_int n) = Num (of_int (cp * n))"
    by simp
  have n1: "0 \<le> (cp - 1) * n" and n2: "0 \<le> cp * n"
    using cp assms by simp_all
  have c: "js_slice X (js_times (js_minus (Num (of_int cp)) 1) (of_int n))
              (js_times (Num (of_int cp)) (of_int n))
        = drop (nat ((cp - 1) * n)) (take (nat (cp * n)) X)"
    unfolding s1 s2 using n1 n2 by (rule js_slice_nonneg)
  show ?thesis
    unfolding makeSelectPaginated_def Let_def a b c
    by (simp add: tp_def cp_def)
qed

section \<open>The paginate stage: properties\<close>

text \<open>
  Claim C1, amended. For every list \<open>X\<close>, every page number \<open>p\<close> and every page size
  \<open>n \<ge> 1\<close> the paginate stage returns \<open>total = length X\<close>,
  \<open>totalPages = max(1, ceil(total / n))\<close>, \<open>currentPage = clamp(p, 1, totalPages)\<close> (a page
  out of range is corrected, there is no error), and \<open>data\<close> is the contiguous slice of \<open>X\<close>
  from index \<open>(currentPage - 1) * n\<close> up to but excluding index \<open>currentPage * n\<close>, empty when
  \<open>total = 0\<close>.
\<close>

theorem paginate_stage:
  assumes "1 \<le> n"
  shows "paginate_claim X p n"
proof -
  have tp: "1 \<le> pages_of (length X) n"
    by (rule pages_of_ge1)
  have cp: "1 \<le> clamp p 1 (pages_of (length X) n)"
    using clamp_range [OF tp] by simp
  then have "0 \<le> (clamp p 1 (pages_of (length X) n) - 1) * n"
    using assms by simp
  then show ?thesis
    unfolding paginate_claim_def Let_def paginate_pos [OF assms]
    by (simp add: interval_slice_nat)
qed

theorem paginate_stage_witness:
  "(1::int) \<le> 2 \<and> paginate_claim [anya, boris, vera] 5 2 \<and>
   makeSelectPaginated [anya, boris, vera] 5 2 =
     \<lparr>data = [vera], total_p = 3, totalPages = Num 2, currentPage = Num 2\<rparr>"
proof -
  have h: "(1::int) \<le> 2"
    by simp
  have e: "makeSelectPaginated [anya, boris, vera] 5 2 =
     \<lparr>data = [vera], total_p = 3, totalPages = Num 2, currentPage = Num 2\<rparr>"
    by code_simp
  show ?thesis
    using paginate_stage [OF h, of "[anya, boris, vera]" 5] e by simp
qed

text \<open>
  The claim as stated, for every page size, fails at page size \<open>-1\<close>: on a list of three the
  stage returns the first two records, since a negative end index of \<^verbatim>\<open>slice\<close> counts from
  the end of the array, and the slice from index 0 up to index \<open>-1\<close> is empty.
\<close>

theorem paginate_stage_counterexample:
  "\<not> paginate_claim [1, 2, 3 :: nat] 1 (- 1)"
  by code_simp

lemma paginate_negative_example:
  "makeSelectPaginated [1, 2, 3 :: nat] 1 (- 1)
     = \<lparr>data = [1, 2], total_p = 3, totalPages = Num 1, currentPage = Num 1\<rparr> \<and>
   pages_of 3 (- 1) = 1 \<and> clamp 1 1 1 = 1 \<and>
   interval_slice [1, 2, 3 :: nat] ((1 - 1) * (- 1)) (1 * (- 1)) = []"
  by code_simp

subsection \<open>Page sizes below 1\<close>

lemma paginate_zero_nonempty:
  assumes "X \<noteq> []"
  shows "makeSelectPaginated X p 0 =
     \<lparr>data = [], total_p = length X, totalPages = PosInf, currentPage = Num (of_int (max 1 p))\<rparr>"
proof -
  have "js_div (of_nat (length X)) (of_int 0) = PosInf"
    using assms by (simp add: js_div_def)
  then show ?thesis
    by (simp add: makeSelectPaginated_def Let_def js_slice_def js_trunc_def of_int_max)
qed

lemma paginate_zero_empty:
  "makeSelectPaginated [] p 0 = \<lparr>data = [], total_p = 0, totalPages = NaN, currentPage = NaN\<rparr>"
  by (simp add: makeSelectPaginated_def Let_def js_slice_def js_div_def)

lemma pages_of_negative:
  assumes "n < 0"
  shows "Math_max (Num 1) (Math_ceil (js_div (of_nat len) (of_int n))) = Num 1"
proof -
  have "rat_of_nat len / rat_of_int n \<le> 0"
    using assms by (simp add: divide_nonneg_neg)
  then have "\<lceil>rat_of_nat len / rat_of_int n\<rceil> \<le> 0"
    by (simp add: ceiling_le_zero)
  then have "max 1 (rat_of_int \<lceil>rat_of_nat len / rat_of_int n\<rceil>) = 1"
    by (simp add: max_def)
  then show ?thesis
    using assms by (simp add: js_div_def)
qed

lemma paginate_negative:
  assumes "n < 0"
  shows "makeSelectPaginated X p n =
     \<lparr>data = take (length X - nat (- n)) X, total_p = length X, totalPages = Num 1,
      currentPage = Num 1\<rparr>"
proof -
  have c: "Math_min (Math_max (Num 1) (Num (of_int p))) (Num 1) = Num 1"
    by simp
  have s1: "js_times (js_minus (Num 1) 1) (of_int n) = Num (of_int 0)"
    by simp
  have s2: "js_times (Num 1) (of_int n) = Num (of_int n)"
    by simp
  have r1: "relative_index (int (length X)) (Num (of_int 0)) = 0"
    by (simp add: js_trunc_def)
  have r2: "relative_index (int (length X)) (Num (of_int n)) = max (int (length X) + n) 0"
    using assms by (simp add: js_trunc_of_int)
  have "nat (max (int (length X) + n) 0 - 0) = length X - nat (- n)"
    using assms by (simp add: max_def) linarith
  then have d: "js_slice X (Num (of_int 0)) (Num (of_int n)) = take (length X - nat (- n)) X"
    unfolding js_slice_def Let_def r1 r2 by simp
  show ?thesis
    unfolding makeSelectPaginated_def Let_def pages_of_negative [OF assms] c s1 s2 d
    by simp
qed

text \<open>
  Claim C6, amended. The paginate stage does not clamp the page size. For a page size
  \<open>n \<ge> 1\<close> nothing is to clamp, no division by zero happens and \<open>totalPages\<close> is finite. For
  \<open>n = 0\<close> the division is by zero: \<open>totalPages\<close> is infinite on a non-empty list and \<^verbatim>\<open>NaN\<close>
  (as is \<open>currentPage\<close>) on the empty list, and \<open>data\<close> is empty. For \<open>n < 0\<close> both
  \<open>totalPages\<close> and \<open>currentPage\<close> are 1 and \<open>data\<close> is the list without its last \<open>-n\<close>
  records.
\<close>

theorem pageSize_not_clamped:
  "(1 \<le> n \<longrightarrow> clamps_pageSize X p n \<and>
      totalPages (makeSelectPaginated X p n) = Num (of_int (pages_of (length X) n))) \<and>
   (n = 0 \<and> X \<noteq> [] \<longrightarrow>
      totalPages (makeSelectPaginated X p n) = PosInf \<and> data (makeSelectPaginated X p n) = []) \<and>
   (n = 0 \<and> X = [] \<longrightarrow>
      totalPages (makeSelectPaginated X p n) = NaN \<and> currentPage (makeSelectPaginated X p n) = NaN \<and>
      data (makeSelectPaginated X p n) = []) \<and>
   (n < 0 \<longrightarrow>
      totalPages (makeSelectPaginated X p n) = Num 1 \<and> currentPage (makeSelectPaginated X p n) = Num 1 \<and>
      data (makeSelectPaginated X p n) = take (length X - nat (- n)) X)"
proof (intro conjI impI)
  assume n: "1 \<le> n"
  then have "max 1 n = n"
    by simp
  then show "clamps_pageSize X p n"
    by (simp add: clamps_pageSize_def paginate_pos [OF n] is_finite_def)
  show "totalPages (makeSelectPaginated X p n) = Num (of_int (pages_of (length X) n))"
    by (simp add: paginate_pos [OF n])
next
  assume "n = 0 \<and> X \<noteq> []"
  then have e: "makeSelectPaginated X p n =
     \<lparr>data = [], total_p = length X, totalPages = PosInf, currentPage = Num (of_int (max 1 p))\<rparr>"
    using paginate_zero_nonempty by blast
  show "totalPages (makeSelectPaginated X p n) = PosInf"
    by (simp add: e)
  show "data (makeSelectPaginated X p n) = []"
    by (simp add: e)
next
  assume "n = 0 \<and> X = []"
  then have e: "makeSelectPaginated X p n =
     \<lparr>data = [], total_p = 0, totalPages = NaN, currentPage = NaN\<rparr>"
    using paginate_zero_empty by blast
  show "totalPages (makeSelectPaginated X p n) = NaN"
    by (simp add: e)
  show "currentPage (makeSelectPaginated X p n) = NaN"
    by (simp add: e)
  show "data (makeSelectPaginated X p n) = []"
    by (simp add: e)
next
  assume n: "n < 0"
  show "totalPages (makeSelectPaginated X p n) = Num 1"
    by (simp add: paginate_negative [OF n])
  show "currentPage (makeSelectPaginated X p n) = Num 1"
    by (simp add: paginate_negative [OF n])
  show "data (makeSelectPaginated X p n) = take (length X - nat (- n)) X"
    by (simp add: paginate_negative [OF n])
qed

theorem pageSize_not_clamped_witness:
  "clamps_pageSize [anya, boris, vera] 2 2 \<and>
   totalPages (makeSelectPaginated [anya, boris, vera] 2 0) = PosInf \<and>
   totalPages (makeSelectPaginated ([] :: UserStatistic list) 2 0) = NaN \<and>
   data (makeSelectPaginated [anya, boris, vera] 2 (- 2)) = [anya]"
  using pageSize_not_clamped [of 2 "[anya, boris, vera]" 2]
    pageSize_not_clamped [of 0 "[anya, boris, vera]" 2]
    pageSize_not_clamped [of 0 "[] :: UserStatistic list" 2]
    pageSize_not_clamped [of "- 2" "[anya, boris, vera]" 2]
  by simp

text \<open>
  The claim as stated fails at page size 0 on a list of one record: \<open>totalPages\<close> is infinite,
  and the result is not the one for page size 1.
\<close>

theorem pageSize_not_clamped_counterexample:
  "\<not> clamps_pageSize [anya] 1 0"
  by (simp add: clamps_pageSize_def paginate_zero_nonempty is_finite_def)


section \<open>The aggregate stage: properties\<close>

subsection \<open>Rounding to binary64\<close>

lemma rne_close: "\<bar>of_int (rne r) - r\<bar> \<le> 1 / 2"
proof -
  have "of_int \<lfloor>r\<rfloor> \<le> r" "r < of_int \<lfloor>r\<rfloor> + 1"
    by linarith+
  then show ?thesis
    by (auto simp: rne_def Let_def)
qed

lemma rne_of_int: "rne (of_int k) = k"
  by (simp add: rne_def)

lemma scale_up_bounds:
  "1 \<le> x \<Longrightarrow> x < 2 ^ Suc n \<Longrightarrow> 2 ^ scale_up n x \<le> x \<and> x < 2 ^ Suc (scale_up n x)"
proof (induction n arbitrary: x)
  case 0
  then show ?case by simp
next
  case (Suc n)
  show ?case
  proof (cases "x < 2")
    case True
    then show ?thesis using Suc.prems by simp
  next
    case False
    then have "1 \<le> x / 2" "x / 2 < 2 ^ Suc n"
      using Suc.prems by simp_all
    then have "2 ^ scale_up n (x / 2) \<le> x / 2 \<and> x / 2 < 2 ^ Suc (scale_up n (x / 2))"
      by (rule Suc.IH)
    then show ?thesis
      using False by simp
  qed
qed

lemma scale_down_bounds:
  "0 < x \<Longrightarrow> x < 2 \<Longrightarrow> 1 / 2 ^ n \<le> x \<Longrightarrow>
     1 / 2 ^ scale_down n x \<le> x \<and> x < 2 / 2 ^ scale_down n x"
proof (induction n arbitrary: x)
  case 0
  then show ?case by simp
next
  case (Suc n)
  show ?case
  proof (cases "1 \<le> x")
    case True
    then show ?thesis using Suc.prems by simp
  next
    case False
    then have "0 < 2 * x" "2 * x < 2" "1 / 2 ^ n \<le> 2 * x"
      using Suc.prems by (simp_all add: field_simps)
    then have "1 / 2 ^ scale_down n (2 * x) \<le> 2 * x \<and> 2 * x < 2 / 2 ^ scale_down n (2 * x)"
      by (rule Suc.IH)
    then show ?thesis
      using False by (simp add: field_simps)
  qed
qed

lemma ulp_bounds:
  assumes "1 / 2 ^ 1022 \<le> a" "a < 2 ^ 1025"
  shows "0 < ulp a \<and> ulp a * 2 ^ 52 \<le> a \<and> a < ulp a * 2 ^ 53"
proof (cases "1 \<le> a")
  case True
  have "a < 2 ^ Suc 1024"
    using assms(2) by simp
  then have "2 ^ scale_up 1024 a \<le> a \<and> a < 2 ^ Suc (scale_up 1024 a)"
    using True scale_up_bounds by blast
  then show ?thesis
    using True by (simp add: ulp_def)
next
  case False
  have "0 < a"
    using assms(1) by (rule less_le_trans [rotated]) simp
  then have "1 / 2 ^ scale_down 1022 a \<le> a \<and> a < 2 / 2 ^ scale_down 1022 a"
    using False assms(1) by (intro scale_down_bounds) simp_all
  then show ?thesis
    using False by (simp add: ulp_def)
qed


lemma binary64_normal:
  assumes "1 / 2 ^ 1022 \<le> x" "x < 2 ^ 1023"
  shows "binary64 x = Num (of_int (rne (x / ulp x)) * ulp x)"
    and "\<bar>of_int (rne (x / ulp x)) * ulp x - x\<bar> \<le> x / 2 ^ 53"
proof -
  have x: "0 < x"
    using assms(1) by (rule less_le_trans [rotated]) simp
  define u where "u = ulp x"
  define m where "m = rne (x / u)"
  have "x < 2 ^ 1025"
    using assms(2) by (rule less_trans) simp
  then have u: "0 < u" "u * 2 ^ 52 \<le> x"
    using ulp_bounds [OF assms(1)] by (simp_all add: u_def)
  have "\<bar>of_int m - x / u\<bar> \<le> 1 / 2"
    unfolding m_def by (rule rne_close)
  then have "\<bar>of_int m - x / u\<bar> * u \<le> 1 / 2 * u"
    using u(1) by (intro mult_right_mono) simp_all
  moreover have "\<bar>of_int m * u - x\<bar> = \<bar>(of_int m - x / u) * u\<bar>"
    using u(1) by (simp add: left_diff_distrib)
  then have "\<bar>of_int m - x / u\<bar> * u = \<bar>of_int m * u - x\<bar>"
    using u(1) by (simp add: abs_mult)
  ultimately have close: "\<bar>of_int m * u - x\<bar> \<le> u / 2"
    by simp
  have half: "u / 2 \<le> x / 2 ^ 53"
    using u(2) by (simp add: field_simps)
  show "\<bar>of_int (rne (x / ulp x)) * ulp x - x\<bar> \<le> x / 2 ^ 53"
    using close half unfolding m_def u_def by linarith
  have "of_int m * u \<le> x + x / 2 ^ 53"
    using close half by linarith
  also have "\<dots> < 2 * x"
    using x by (simp add: field_simps)
  also have "\<dots> < 2 ^ 1024"
    using assms(2) by simp
  finally have "\<not> 2 ^ 1024 \<le> of_int m * u"
    by simp
  then show "binary64 x = Num (of_int (rne (x / ulp x)) * ulp x)"
    using x by (simp add: binary64_def Let_def m_def u_def)
qed

lemma binary64_pos:
  assumes "1 / 2 ^ 1022 \<le> x" "x < 2 ^ 1023"
  shows "\<exists>y. binary64 x = Num y \<and> \<bar>y - x\<bar> \<le> x / 2 ^ 53"
  using binary64_normal [OF assms] by blast

lemma divide_scaled_nat:
  assumes "k \<le> p"
  shows "rat_of_nat n / (2 ^ k / 2 ^ p) = of_int (int n * 2 ^ (p - k))"
proof -
  have "(2::rat) ^ (p - k) = 2 ^ p / 2 ^ k"
    using assms by (simp add: power_diff)
  then show ?thesis
    by simp
qed

lemma binary64_nat:
  assumes "n \<le> 2 ^ 53"
  shows "binary64 (of_nat n) = Num (of_nat n)"
proof (cases "n = 0")
  case True
  then show ?thesis by (simp add: binary64_def)
next
  case False
  define a :: rat where "a = of_nat n"
  define k where "k = scale_up 1024 a"
  have a1: "1 \<le> a"
    using False by (simp add: a_def)
  have a53: "a \<le> 2 ^ 53"
    using assms unfolding a_def by (metis of_nat_le_iff of_nat_numeral of_nat_power)
  then have "a < 2 ^ Suc 1024"
    by (rule le_less_trans) simp
  then have k: "2 ^ k \<le> a" "a < 2 ^ Suc k"
    using scale_up_bounds [OF a1] by (simp_all add: k_def)
  have u: "ulp a = 2 ^ k / 2 ^ 52"
    using a1 by (simp add: ulp_def k_def)
  have "\<exists>j::int. a / ulp a = of_int j"
  proof (cases "k \<le> 52")
    case True
    have "a / ulp a = rat_of_nat n / (2 ^ k / 2 ^ 52)"
      by (simp only: u) (simp only: a_def)
    also have "\<dots> = of_int (int n * 2 ^ (52 - k))"
      using True by (rule divide_scaled_nat)
    finally show ?thesis by blast
  next
    case False
    then have "(2::rat) ^ 53 \<le> 2 ^ k"
      by (intro power_increasing) simp_all
    then have e: "a = 2 ^ 53" "(2::rat) ^ k = 2 ^ 53"
      using k(1) a53 by simp_all
    have "a / ulp a = a / (2 ^ k / 2 ^ 52)"
      by (simp only: u)
    also have "\<dots> = of_int (2 ^ 52)"
      unfolding e by simp
    finally show ?thesis by blast
  qed
  then obtain j :: int where j: "a / ulp a = of_int j"
    by blast
  have "0 < ulp a"
    by (simp only: u) simp
  have "of_int (rne (a / ulp a)) * ulp a = a / ulp a * ulp a"
    by (simp only: j rne_of_int)
  also have "\<dots> = a"
    using \<open>0 < ulp a\<close> by simp
  finally have y: "of_int (rne (a / ulp a)) * ulp a = a" .
  have "a < 2 ^ 1024"
    using a53 by (rule le_less_trans) simp
  then show ?thesis
    using a1 y unfolding a_def [symmetric] by (simp add: binary64_def Let_def)
qed

lemma js_plus_nat:
  assumes "a + b \<le> 2 ^ 53"
  shows "js_plus (of_count a) (of_count b) = of_count (a + b)"
  using binary64_nat [OF assms] by (simp add: of_count_def)


lemma rounds_to_nearest:
  assumes "\<bar>rat_of_int d - p\<bar> \<le> 1 / 2"
  shows "rounds_to p d"
proof (cases "p = of_int d + 1 / 2")
  case True
  then have "\<lfloor>p\<rfloor> = d" "\<lfloor>p + 1 / 2\<rfloor> = d + 1"
    by (simp_all add: floor_unique)
  then show ?thesis
    using True by (simp add: rounds_to_def half_integer_def round_half_up_def)
next
  case False
  then have "of_int d \<le> p + 1 / 2" "p + 1 / 2 < of_int d + 1"
    using assms by linarith+
  then have "\<lfloor>p + 1 / 2\<rfloor> = d"
    by (rule floor_unique)
  then show ?thesis
    by (simp add: rounds_to_def round_half_up_def)
qed

lemma nearest_from_close:
  fixes P t :: int and y :: rat
  assumes t: "0 < t" and close: "\<bar>y - of_int P / of_int t\<bar> < 1 / (2 * of_int t)"
  shows "\<bar>rat_of_int \<lfloor>y + 1 / 2\<rfloor> - of_int P / of_int t\<bar> \<le> 1 / 2"
proof -
  define d where "d = \<lfloor>y + 1 / 2\<rfloor>"
  define p :: rat where "p = of_int P / of_int t"
  have tp: "p * of_int t = of_int P"
    using t by (simp add: p_def)
  have d: "of_int d \<le> y + 1 / 2" "y + 1 / 2 < of_int d + 1"
    unfolding d_def by linarith+
  have c: "y - p < 1 / (2 * of_int t)" "p - y < 1 / (2 * of_int t)"
    using close unfolding p_def by (simp_all add: abs_less_iff)
  have t0: "(0::rat) < 2 * of_int t"
    using t by simp
  have "(of_int d - p - 1 / 2) * (2 * of_int t) < 1 / (2 * of_int t) * (2 * of_int t)"
    using d(1) c(1) t0 by (intro mult_strict_right_mono) linarith+
  then have "rat_of_int (2 * t * d - 2 * P - t) < 1"
    using t tp by (simp add: algebra_simps)
  then have "2 * t * d - 2 * P - t < 1"
    by (metis of_int_1 of_int_less_iff)
  then have "2 * t * d - 2 * P - t \<le> 0"
    by linarith
  then have "rat_of_int (2 * t * d - 2 * P - t) \<le> 0"
    by (simp only: of_int_le_0_iff)
  then have "(of_int d - p - 1 / 2) * (2 * of_int t) \<le> 0"
    using t tp by (simp add: algebra_simps)
  then have up: "of_int d - p \<le> 1 / 2"
    using t0 by (simp add: mult_le_0_iff)
  have "(p - of_int d - 1 / 2) * (2 * of_int t) < 1 / (2 * of_int t) * (2 * of_int t)"
    using d(2) c(2) t0 by (intro mult_strict_right_mono) linarith+
  then have "rat_of_int (2 * P - 2 * t * d - t) < 1"
    using t tp by (simp add: algebra_simps)
  then have "2 * P - 2 * t * d - t < 1"
    by (metis of_int_1 of_int_less_iff)
  then have "2 * P - 2 * t * d - t \<le> 0"
    by linarith
  then have "rat_of_int (2 * P - 2 * t * d - t) \<le> 0"
    by (simp only: of_int_le_0_iff)
  then have "(p - of_int d - 1 / 2) * (2 * of_int t) \<le> 0"
    using t tp by (simp add: algebra_simps)
  then have "p - of_int d \<le> 1 / 2"
    using t0 by (simp add: mult_le_0_iff)
  then have "\<bar>of_int d - p\<bar> \<le> 1 / 2"
    using up by linarith
  then show ?thesis
    unfolding d_def p_def .
qed


lemma of_nat_le_pow: "n \<le> 2 ^ k \<Longrightarrow> rat_of_nat n \<le> 2 ^ k"
  by (metis of_nat_le_iff of_nat_numeral of_nat_power)

lemma quotient_lower:
  assumes "0 < C" "0 < T" "T \<le> 2 ^ 40"
  shows "1 / 2 ^ 40 \<le> rat_of_nat C / rat_of_nat T"
proof -
  have "rat_of_nat T \<le> 2 ^ 40"
    using assms(3) by (rule of_nat_le_pow)
  then have "1 / 2 ^ 40 \<le> 1 / rat_of_nat T"
    using assms(2) by (intro divide_left_mono) simp_all
  also have "\<dots> \<le> rat_of_nat C / rat_of_nat T"
    using assms(1) by (intro divide_right_mono) simp_all
  finally show ?thesis .
qed

lemma binary64_quotient:
  assumes "0 < C" "0 < T" "C \<le> 2 ^ 40" "T \<le> 2 ^ 40"
  shows "\<exists>x1. binary64 (rat_of_nat C / rat_of_nat T) = Num x1 \<and>
    \<bar>x1 - rat_of_nat C / rat_of_nat T\<bar> \<le> rat_of_nat C / rat_of_nat T / 2 ^ 53"
proof -
  have "1 / 2 ^ 40 \<le> rat_of_nat C / rat_of_nat T"
    using assms by (intro quotient_lower)
  then have lo: "1 / 2 ^ 1022 \<le> rat_of_nat C / rat_of_nat T"
    by (rule order_trans [rotated]) simp
  have "rat_of_nat C / rat_of_nat T \<le> rat_of_nat C / 1"
    using assms(2) by (intro divide_left_mono) simp_all
  also have "\<dots> \<le> 2 ^ 40"
    using assms(3) by (simp add: of_nat_le_pow)
  also have "\<dots> < 2 ^ 1023"
    by simp
  finally show ?thesis
    using lo by (intro binary64_pos)
qed

lemma floor_half: "\<lfloor>1 / 2 :: rat\<rfloor> = 0"
  by (rule floor_unique) simp_all

lemma done_rate_near:
  assumes T: "0 < T" and CT: "C \<le> T" and T40: "T \<le> 2 ^ 40"
  shows "\<exists>d. Math_round (js_multiply (js_divide (of_count C) (of_count T)) (Num 100)) = Num (of_int d) \<and>
    \<bar>rat_of_int d - 100 * rat_of_nat C / rat_of_nat T\<bar> \<le> 1 / 2"
proof (cases "C = 0")
  case True
  have "Math_round (js_multiply (js_divide (of_count C) (of_count T)) (Num 100)) = Num (of_int 0)"
    using T True by (simp add: of_count_def binary64_def floor_half)
  then show ?thesis
    using True by (intro exI [of _ 0]) simp
next
  case False
  define x where "x = rat_of_nat C / rat_of_nat T"
  have C40: "C \<le> 2 ^ 40"
    using CT T40 by simp
  have x0: "1 / 2 ^ 40 \<le> x"
    unfolding x_def using False T T40 by (intro quotient_lower) simp_all
  have x1: "x \<le> 1"
    unfolding x_def using T CT by simp
  obtain x' where x': "binary64 x = Num x'" "\<bar>x' - x\<bar> \<le> x / 2 ^ 53"
    unfolding x_def using binary64_quotient [of C T] False T C40 T40 by auto
  have xpos': "0 \<le> x"
    using x0 by (rule order_trans [rotated]) simp
  then have "x / 2 ^ 53 \<le> x / 2"
    by (intro divide_left_mono) simp_all
  then have xb: "x / 2 \<le> x'" "x' \<le> 2 * x"
    using x'(2) xpos' by linarith+
  define y where "y = x' * 100"
  have xpos: "0 < x"
    using x0 by (rule less_le_trans [rotated]) simp
  have "1 / 2 ^ 1022 \<le> 1 / (2::rat) ^ 40"
    by simp
  then have "1 / 2 ^ 1022 \<le> x"
    using x0 by (rule order_trans)
  moreover have "x \<le> y"
    using xb(1) xpos unfolding y_def by linarith
  ultimately have ylo: "1 / 2 ^ 1022 \<le> y"
    by (rule order_trans)
  have "y \<le> 200"
    using xb(2) x1 unfolding y_def by linarith
  then have yhi: "y < 2 ^ 1023"
    by (rule le_less_trans) simp
  obtain y' where y': "binary64 y = Num y'" "\<bar>y' - y\<bar> \<le> y / 2 ^ 53"
    using binary64_pos [OF ylo yhi] by auto
  define ex where "ex = x / 2 ^ 53"
  define ey where "ey = y / 2 ^ 53"
  have "y \<le> 200 * x"
    using xb(2) unfolding y_def by linarith
  then have "y / 2 ^ 53 \<le> 200 * x / 2 ^ 53"
    by (intro divide_right_mono) simp_all
  then have ey: "ey \<le> 200 * ex"
    by (simp add: ey_def ex_def)
  have "\<bar>x' - x\<bar> \<le> ex"
    using x'(2) by (simp only: ex_def)
  then have "\<bar>y - 100 * x\<bar> \<le> 100 * ex"
    unfolding y_def by linarith
  then have e: "\<bar>y' - 100 * x\<bar> \<le> 300 * ex"
    using y'(2) ey unfolding ey_def [symmetric] by linarith
  have "rat_of_nat C \<le> 2 ^ 40"
    using C40 by (rule of_nat_le_pow)
  then have "600 * rat_of_nat C / 2 ^ 53 < 1"
    by simp
  then have "600 * rat_of_nat C / 2 ^ 53 * (1 / (2 * rat_of_nat T)) < 1 * (1 / (2 * rat_of_nat T))"
    using T by (intro mult_strict_right_mono) simp_all
  moreover have "600 * rat_of_nat C / 2 ^ 53 * (1 / (2 * rat_of_nat T)) = 300 * ex"
    by (simp add: x_def ex_def)
  ultimately have "\<bar>y' - 100 * x\<bar> < 1 / (2 * rat_of_nat T)"
    using e by linarith
  moreover have "100 * x = rat_of_int (100 * int C) / rat_of_int (int T)"
    by (simp add: x_def)
  ultimately have "\<bar>y' - rat_of_int (100 * int C) / rat_of_int (int T)\<bar>
      < 1 / (2 * rat_of_int (int T))"
    by simp
  then have n: "\<bar>rat_of_int \<lfloor>y' + 1 / 2\<rfloor> - rat_of_int (100 * int C) / rat_of_int (int T)\<bar> \<le> 1 / 2"
    using T by (intro nearest_from_close) simp_all
  have "js_divide (of_count C) (of_count T) = Num x'"
    using T x'(1) by (simp add: of_count_def x_def)
  then have "Math_round (js_multiply (js_divide (of_count C) (of_count T)) (Num 100))
      = Num (of_int \<lfloor>y' + 1 / 2\<rfloor>)"
    using y'(1) by (simp add: y_def)
  then show ?thesis
    using n by (intro exI [of _ "\<lfloor>y' + 1 / 2\<rfloor>"]) simp
qed


lemma average_near:
  assumes U: "0 < U" and U40: "U \<le> 2 ^ 40" and C40: "C \<le> 2 ^ 40"
  shows "\<exists>n. toFixed2 (js_divide (of_count C) (of_count U)) = binary64 (of_int n / 100) \<and>
    \<bar>rat_of_int n - 100 * rat_of_nat C / rat_of_nat U\<bar> \<le> 1 / 2"
proof (cases "C = 0")
  case True
  have "toFixed2 (js_divide (of_count C) (of_count U)) = binary64 (of_int 0 / 100)"
    using U True by (simp add: of_count_def binary64_def floor_half)
  then show ?thesis
    using True by (intro exI [of _ 0]) simp
next
  case False
  define x where "x = rat_of_nat C / rat_of_nat U"
  obtain x' where x': "binary64 x = Num x'" "\<bar>x' - x\<bar> \<le> x / 2 ^ 53"
    unfolding x_def using binary64_quotient [of C U] False U C40 U40 by auto
  define ex where "ex = x / 2 ^ 53"
  have xpos: "0 \<le> x"
    by (simp add: x_def)
  then have "x / 2 ^ 53 \<le> x / 2"
    by (intro divide_left_mono) simp_all
  then have ex2: "ex \<le> x / 2"
    by (simp only: ex_def)
  have close: "\<bar>x' - x\<bar> \<le> ex"
    using x'(2) by (simp only: ex_def)
  then have xb: "0 \<le> x'" "x' \<le> 2 * x"
    using ex2 xpos by linarith+
  have "x \<le> rat_of_nat C / 1"
    unfolding x_def using U by (intro divide_left_mono) simp_all
  also have "\<dots> \<le> 2 ^ 40"
    using C40 by (simp add: of_nat_le_pow)
  finally have "x' \<le> 2 * 2 ^ 40"
    using xb(2) by linarith
  also have "\<dots> < 10 ^ 21"
    by simp
  finally have "\<not> 10 ^ 21 \<le> \<bar>x'\<bar>"
    using xb(1) by simp
  then have r: "toFixed2 (Num x') = binary64 (of_int \<lfloor>x' * 100 + 1 / 2\<rfloor> / 100)"
    using xb(1) by (simp add: Let_def)
  have e: "\<bar>x' * 100 - 100 * x\<bar> \<le> 100 * ex"
    using close by linarith
  have "rat_of_nat C \<le> 2 ^ 40"
    using C40 by (rule of_nat_le_pow)
  then have "200 * rat_of_nat C / 2 ^ 53 < 1"
    by simp
  then have "200 * rat_of_nat C / 2 ^ 53 * (1 / (2 * rat_of_nat U)) < 1 * (1 / (2 * rat_of_nat U))"
    using U by (intro mult_strict_right_mono) simp_all
  moreover have "200 * rat_of_nat C / 2 ^ 53 * (1 / (2 * rat_of_nat U)) = 100 * ex"
    by (simp add: x_def ex_def)
  ultimately have "\<bar>x' * 100 - 100 * x\<bar> < 1 / (2 * rat_of_nat U)"
    using e by linarith
  moreover have "100 * x = rat_of_int (100 * int C) / rat_of_int (int U)"
    by (simp add: x_def)
  ultimately have "\<bar>x' * 100 - rat_of_int (100 * int C) / rat_of_int (int U)\<bar>
      < 1 / (2 * rat_of_int (int U))"
    by simp
  then have n: "\<bar>rat_of_int \<lfloor>x' * 100 + 1 / 2\<rfloor> - rat_of_int (100 * int C) / rat_of_int (int U)\<bar>
      \<le> 1 / 2"
    using U by (intro nearest_from_close) simp_all
  have "js_divide (of_count C) (of_count U) = Num x'"
    using U x'(1) by (simp add: of_count_def x_def)
  then have "toFixed2 (js_divide (of_count C) (of_count U))
      = binary64 (of_int \<lfloor>x' * 100 + 1 / 2\<rfloor> / 100)"
    using r by simp
  then show ?thesis
    using n by (intro exI [of _ "\<lfloor>x' * 100 + 1 / 2\<rfloor>"]) simp
qed

lemma sum_counts_fold:
  assumes "c + sum_list (map completedTasks X) \<le> 2 ^ 53"
    "w + sum_list (map inWorkTasks X) \<le> 2 ^ 53" "f + sum_list (map failedTasks X) \<le> 2 ^ 53"
  shows "fold (\<lambda>u (completed, inWork, failed).
            (js_plus completed (of_count (completedTasks u)), js_plus inWork (of_count (inWorkTasks u)),
             js_plus failed (of_count (failedTasks u)))) X (of_count c, of_count w, of_count f)
     = (of_count (c + sum_list (map completedTasks X)), of_count (w + sum_list (map inWorkTasks X)),
        of_count (f + sum_list (map failedTasks X)))"
  using assms
proof (induction X arbitrary: c w f)
  case Nil
  then show ?case by simp
next
  case (Cons u X)
  have "c + completedTasks u \<le> 2 ^ 53" "w + inWorkTasks u \<le> 2 ^ 53" "f + failedTasks u \<le> 2 ^ 53"
    using Cons.prems by simp_all
  then have s: "js_plus (of_count c) (of_count (completedTasks u)) = of_count (c + completedTasks u)"
    "js_plus (of_count w) (of_count (inWorkTasks u)) = of_count (w + inWorkTasks u)"
    "js_plus (of_count f) (of_count (failedTasks u)) = of_count (f + failedTasks u)"
    by (simp_all only: js_plus_nat)
  show ?case
    using Cons.IH [of "c + completedTasks u" "w + inWorkTasks u" "f + failedTasks u"] Cons.prems
    by (simp add: s add.assoc)
qed

lemma totals_fold:
  assumes "c + sum_list (map completedTasks X) \<le> 2 ^ 53"
    "w + sum_list (map inWorkTasks X) \<le> 2 ^ 53" "f + sum_list (map failedTasks X) \<le> 2 ^ 53"
  shows "fold (\<lambda>u acc. acc\<lparr>completed_t := js_plus (completed_t acc) (of_count (completedTasks u)),
                        inWork_t := js_plus (inWork_t acc) (of_count (inWorkTasks u)),
                        failed_t := js_plus (failed_t acc) (of_count (failedTasks u))\<rparr>) X
      \<lparr>completed_t = of_count c, inWork_t = of_count w, failed_t = of_count f\<rparr>
     = \<lparr>completed_t = of_count (c + sum_list (map completedTasks X)),
        inWork_t = of_count (w + sum_list (map inWorkTasks X)),
        failed_t = of_count (f + sum_list (map failedTasks X))\<rparr>"
  using assms
proof (induction X arbitrary: c w f)
  case Nil
  then show ?case by simp
next
  case (Cons u X)
  have "c + completedTasks u \<le> 2 ^ 53" "w + inWorkTasks u \<le> 2 ^ 53" "f + failedTasks u \<le> 2 ^ 53"
    using Cons.prems by simp_all
  then have s: "js_plus (of_count c) (of_count (completedTasks u)) = of_count (c + completedTasks u)"
    "js_plus (of_count w) (of_count (inWorkTasks u)) = of_count (w + inWorkTasks u)"
    "js_plus (of_count f) (of_count (failedTasks u)) = of_count (f + failedTasks u)"
    by (simp_all only: js_plus_nat)
  show ?case
    using Cons.IH [of "c + completedTasks u" "w + inWorkTasks u" "f + failedTasks u"] Cons.prems
    by (simp add: s add.assoc)
qed

lemma sum_total_tasks:
  "sum_list (map total_tasks X)
     = sum_list (map completedTasks X) + sum_list (map inWorkTasks X) + sum_list (map failedTasks X)"
  by (induction X) (simp_all add: total_tasks_def)


lemma rounds_to_int: "rounds_to (of_int k) d \<longleftrightarrow> d = k"
proof -
  have "\<lfloor>rat_of_int k + 1 / 2\<rfloor> = k"
    by (rule floor_unique) simp_all
  then show ?thesis
    by (simp add: rounds_to_def round_half_up_def half_integer_def)
qed

lemma kpis_sums:
  assumes "sum_list (map total_tasks X) \<le> 2 ^ 40"
  shows "sum_counts X = (of_count (sum_list (map completedTasks X)),
      of_count (sum_list (map inWorkTasks X)), of_count (sum_list (map failedTasks X)))"
    and "selectGlobalTotals X = \<lparr>completed_t = of_count (sum_list (map completedTasks X)),
      inWork_t = of_count (sum_list (map inWorkTasks X)),
      failed_t = of_count (sum_list (map failedTasks X))\<rparr>"
    and "js_plus (js_plus (of_count (sum_list (map completedTasks X)))
        (of_count (sum_list (map inWorkTasks X)))) (of_count (sum_list (map failedTasks X)))
      = of_count (sum_list (map total_tasks X))"
proof -
  have "(2::nat) ^ 40 \<le> 2 ^ 53"
    by simp
  then have t: "sum_list (map total_tasks X) \<le> 2 ^ 53"
    using assms by (rule order_trans [rotated])
  then have b: "0 + sum_list (map completedTasks X) \<le> 2 ^ 53"
    "0 + sum_list (map inWorkTasks X) \<le> 2 ^ 53" "0 + sum_list (map failedTasks X) \<le> 2 ^ 53"
    "sum_list (map completedTasks X) + sum_list (map inWorkTasks X) \<le> 2 ^ 53"
    "sum_list (map completedTasks X) + sum_list (map inWorkTasks X)
      + sum_list (map failedTasks X) \<le> 2 ^ 53"
    unfolding sum_total_tasks by linarith+
  have z: "Num 0 = of_count 0"
    by (simp add: of_count_def)
  show "sum_counts X = (of_count (sum_list (map completedTasks X)),
      of_count (sum_list (map inWorkTasks X)), of_count (sum_list (map failedTasks X)))"
    unfolding sum_counts_def z using sum_counts_fold [OF b(1-3)] by simp
  show "selectGlobalTotals X = \<lparr>completed_t = of_count (sum_list (map completedTasks X)),
      inWork_t = of_count (sum_list (map inWorkTasks X)),
      failed_t = of_count (sum_list (map failedTasks X))\<rparr>"
    unfolding selectGlobalTotals_def z using totals_fold [OF b(1-3)] by simp
  show "js_plus (js_plus (of_count (sum_list (map completedTasks X)))
        (of_count (sum_list (map inWorkTasks X)))) (of_count (sum_list (map failedTasks X)))
      = of_count (sum_list (map total_tasks X))"
    by (simp only: js_plus_nat [OF b(4)] js_plus_nat [OF b(5)] sum_total_tasks)
qed

lemma kpis_fields:
  assumes "sum_list (map total_tasks X) \<le> 2 ^ 40"
  shows "completed (selectGlobalKpis key X) = of_count (sum_list (map completedTasks X))"
    and "inWork (selectGlobalKpis key X) = of_count (sum_list (map inWorkTasks X))"
    and "failed (selectGlobalKpis key X) = of_count (sum_list (map failedTasks X))"
    and "total_k (selectGlobalKpis key X) = of_count (sum_list (map total_tasks X))"
    and "doneRate (selectGlobalKpis key X) =
       (if sum_list (map total_tasks X) \<noteq> 0
        then Math_round (js_multiply (js_divide (of_count (sum_list (map completedTasks X)))
               (of_count (sum_list (map total_tasks X)))) (Num 100))
        else Num 0)"
    and "avgCompletedPerUser (selectGlobalKpis key X) =
       (if length X \<noteq> 0
        then toFixed2 (js_divide (of_count (sum_list (map completedTasks X))) (of_count (length X)))
        else Num 0)"
proof -
  note s = kpis_sums [OF assms]
  have tr: "truthy (of_count n) \<longleftrightarrow> n \<noteq> 0" for n
    by (simp add: of_count_def)
  show "completed (selectGlobalKpis key X) = of_count (sum_list (map completedTasks X))"
    "inWork (selectGlobalKpis key X) = of_count (sum_list (map inWorkTasks X))"
    "failed (selectGlobalKpis key X) = of_count (sum_list (map failedTasks X))"
    "total_k (selectGlobalKpis key X) = of_count (sum_list (map total_tasks X))"
    "doneRate (selectGlobalKpis key X) =
       (if sum_list (map total_tasks X) \<noteq> 0
        then Math_round (js_multiply (js_divide (of_count (sum_list (map completedTasks X)))
               (of_count (sum_list (map total_tasks X)))) (Num 100))
        else Num 0)"
    "avgCompletedPerUser (selectGlobalKpis key X) =
       (if length X \<noteq> 0
        then toFixed2 (js_divide (of_count (sum_list (map completedTasks X))) (of_count (length X)))
        else Num 0)"
    by (simp_all add: selectGlobalKpis_def Let_def s tr)
qed

subsection \<open>Evaluating the rates\<close>

lemma binary64_eval:
  assumes "1 / 2 ^ 1022 \<le> x" "x < 2 ^ 1023" "of_int (rne (x / ulp x)) * ulp x = y"
  shows "binary64 x = Num y"
  using binary64_normal(1) [OF assms(1,2)] assms(3) by simp

lemma binary64_23_40: "binary64 (23 / 40) = Num (2589569785738035 / 4503599627370496)"
  by (rule binary64_eval, simp, simp, code_simp)

lemma binary64_23_40_100:
  "binary64 (2589569785738035 / 4503599627370496 * 100) = Num (8092405580431359 / 140737488355328)"
  by (rule binary64_eval, simp, simp, code_simp)

lemma round_23_40: "\<lfloor>8092405580431359 / 140737488355328 + 1 / 2 :: rat\<rfloor> = 57"
  by code_simp

lemma done_rate_23_40:
  "doneRate (selectGlobalKpis key [stat 23 17 0]) = Num 57"
proof -
  have s: "sum_list (map completedTasks [stat 23 17 0]) = 23"
    "sum_list (map total_tasks [stat 23 17 0]) = 40"
    by (simp_all add: stat_def total_tasks_def)
  have "sum_list (map total_tasks [stat 23 17 0]) \<le> 2 ^ 40"
    unfolding s by simp
  then have "doneRate (selectGlobalKpis key [stat 23 17 0])
      = Math_round (js_multiply (js_divide (of_count 23) (of_count 40)) (Num 100))"
    using kpis_fields(5) [of "[stat 23 17 0]" key] unfolding s by simp
  also have "js_divide (of_count 23) (of_count 40) = Num (2589569785738035 / 4503599627370496)"
    using binary64_23_40 by (simp add: of_count_def)
  also have "js_multiply (Num (2589569785738035 / 4503599627370496)) (Num 100)
      = Num (8092405580431359 / 140737488355328)"
    using binary64_23_40_100 by simp
  also have "Math_round (Num (8092405580431359 / 140737488355328)) = Num 57"
    using round_23_40 by simp
  finally show ?thesis .
qed

lemma round_half_up_23_40: "round_half_up (100 * rat_of_nat 23 / rat_of_nat 40) = 58"
  by code_simp

subsection \<open>Totals and rates\<close>

text \<open>
  Claim C5, amended. For every record list of fewer than \<open>2\<^sup>3\<^sup>2\<close> records whose counts sum
  to at most \<open>2\<^sup>4\<^sup>0\<close>: the totals of the aggregate stage are the sums of the completed,
  in-work and failed counts over all records of the record store (the stage reads nothing
  else, so no filter reaches it). \<open>doneRate\<close> is 0 when the total is 0, and otherwise it is
  \<open>completed / total * 100\<close> rounded to the nearest integer, except that a value exactly
  halfway between two integers may go to the lower one. \<open>avgCompletedPerUser\<close> is 0 when
  there is no record, and otherwise it is the number nearest to \<open>n / 100\<close>, where \<open>n\<close> is
  \<open>completed / userCount * 100\<close> rounded to the nearest integer, except that a value exactly
  halfway between two integers may go to the lower one. The arithmetic is double precision.
\<close>

theorem aggregate_totals:
  assumes "sum_list (map total_tasks X) \<le> 2 ^ 40" "length X < 2 ^ 32"
  shows "completed (selectGlobalKpis key X) = of_count (sum_list (map completedTasks X)) \<and>
    inWork (selectGlobalKpis key X) = of_count (sum_list (map inWorkTasks X)) \<and>
    failed (selectGlobalKpis key X) = of_count (sum_list (map failedTasks X)) \<and>
    selectGlobalTotals X =
      \<lparr>completed_t = of_count (sum_list (map completedTasks X)),
       inWork_t = of_count (sum_list (map inWorkTasks X)),
       failed_t = of_count (sum_list (map failedTasks X))\<rparr> \<and>
    total_k (selectGlobalKpis key X) = of_count (sum_list (map total_tasks X)) \<and>
    (sum_list (map total_tasks X) = 0 \<longrightarrow> doneRate (selectGlobalKpis key X) = Num 0) \<and>
    (0 < sum_list (map total_tasks X) \<longrightarrow>
       (\<exists>d. doneRate (selectGlobalKpis key X) = Num (of_int d) \<and>
            rounds_to (100 * of_nat (sum_list (map completedTasks X))
                         / of_nat (sum_list (map total_tasks X))) d)) \<and>
    (X = [] \<longrightarrow> avgCompletedPerUser (selectGlobalKpis key X) = Num 0) \<and>
    (X \<noteq> [] \<longrightarrow>
       (\<exists>n. avgCompletedPerUser (selectGlobalKpis key X) = binary64 (of_int n / 100) \<and>
            rounds_to (100 * of_nat (sum_list (map completedTasks X)) / of_nat (length X)) n))"
proof -
  define C where "C = sum_list (map completedTasks X)"
  define T where "T = sum_list (map total_tasks X)"
  note s = kpis_sums [OF assms(1), folded C_def T_def]
  have CT: "C \<le> T"
    unfolding C_def T_def sum_total_tasks by simp
  have T40: "T \<le> 2 ^ 40"
    using assms(1) by (simp only: T_def)
  have C40: "C \<le> 2 ^ 40"
    using CT T40 by (rule order_trans)
  have "(2::nat) ^ 32 \<le> 2 ^ 40"
    by simp
  then have U40: "length X \<le> 2 ^ 40"
    using assms(2) by linarith
  have K: "completed (selectGlobalKpis key X) = of_count C"
    "inWork (selectGlobalKpis key X) = of_count (sum_list (map inWorkTasks X))"
    "failed (selectGlobalKpis key X) = of_count (sum_list (map failedTasks X))"
    "total_k (selectGlobalKpis key X) = of_count T"
    "doneRate (selectGlobalKpis key X) =
       (if T \<noteq> 0 then Math_round (js_multiply (js_divide (of_count C) (of_count T)) (Num 100))
        else Num 0)"
    "avgCompletedPerUser (selectGlobalKpis key X) =
       (if length X \<noteq> 0 then toFixed2 (js_divide (of_count C) (of_count (length X))) else Num 0)"
    using kpis_fields [OF assms(1), of key] by (simp_all only: C_def T_def)
  have d: "\<exists>d. doneRate (selectGlobalKpis key X) = Num (of_int d) \<and>
      rounds_to (100 * of_nat C / of_nat T) d" if T0: "0 < T"
  proof -
    obtain d where "Math_round (js_multiply (js_divide (of_count C) (of_count T)) (Num 100)) = Num (of_int d)"
      "\<bar>rat_of_int d - 100 * rat_of_nat C / rat_of_nat T\<bar> \<le> 1 / 2"
      using done_rate_near [OF T0 CT T40] by blast
    then show ?thesis
      using T0 by (intro exI [of _ d]) (simp add: K(5) rounds_to_nearest)
  qed
  have a: "\<exists>n. avgCompletedPerUser (selectGlobalKpis key X) = binary64 (of_int n / 100) \<and>
      rounds_to (100 * of_nat C / of_nat (length X)) n" if X0: "X \<noteq> []"
  proof -
    have U: "0 < length X"
      using X0 by simp
    obtain n where "toFixed2 (js_divide (of_count C) (of_count (length X))) = binary64 (of_int n / 100)"
      "\<bar>rat_of_int n - 100 * rat_of_nat C / rat_of_nat (length X)\<bar> \<le> 1 / 2"
      using average_near [OF U U40 C40] by blast
    then show ?thesis
      using X0 by (intro exI [of _ n]) (simp add: K(6) rounds_to_nearest)
  qed
  have z: "doneRate (selectGlobalKpis key X) = Num 0" if "T = 0"
    using that by (simp add: K(5))
  have e: "avgCompletedPerUser (selectGlobalKpis key X) = Num 0" if "X = []"
  proof -
    have "length X = 0"
      using that by simp
    then show ?thesis
      by (simp only: K(6)) simp
  qed
  show ?thesis
    unfolding C_def [symmetric] T_def [symmetric]
    using K(1-4) s(2) z d a e by blast
qed

theorem aggregate_totals_witness:
  "sum_list (map total_tasks [anya, boris, vera]) \<le> 2 ^ 40 \<and>
   length [anya, boris, vera] < 2 ^ 32 \<and>
   completed (selectGlobalKpis collation_key_ru [anya, boris, vera]) = Num 12 \<and>
   total_k (selectGlobalKpis collation_key_ru [anya, boris, vera]) = Num 16 \<and>
   selectGlobalTotals [anya, boris, vera]
     = \<lparr>completed_t = Num 12, inWork_t = Num 1, failed_t = Num 3\<rparr> \<and>
   doneRate (selectGlobalKpis collation_key_ru [anya, boris, vera]) = Num 75 \<and>
   avgCompletedPerUser (selectGlobalKpis collation_key_ru [anya, boris, vera]) = Num 4"
proof -
  let ?X = "[anya, boris, vera]"
  have s: "sum_list (map completedTasks ?X) = 12" "sum_list (map inWorkTasks ?X) = 1"
    "sum_list (map failedTasks ?X) = 3" "sum_list (map total_tasks ?X) = 16"
    by (simp_all add: anya_def boris_def vera_def total_tasks_def)
  have h: "sum_list (map total_tasks ?X) \<le> 2 ^ 40" "length ?X < 2 ^ 32"
    unfolding s by simp_all
  note A = aggregate_totals [OF h, of collation_key_ru, unfolded s]
  have p: "100 * rat_of_nat 12 / rat_of_nat 16 = of_int 75"
    "100 * rat_of_nat 12 / rat_of_nat (length ?X) = of_int 400"
    by simp_all
  have c: "of_count 12 = Num 12" "of_count 1 = Num 1" "of_count 3 = Num 3" "of_count 16 = Num 16"
    by (simp_all add: of_count_def)
  have d: "doneRate (selectGlobalKpis collation_key_ru ?X) = Num 75"
    using A unfolding p rounds_to_int by auto
  have "binary64 (rat_of_int 400 / 100) = Num 4"
    using binary64_nat [of 4] by simp
  then have a: "avgCompletedPerUser (selectGlobalKpis collation_key_ru ?X) = Num 4"
    using A unfolding p rounds_to_int by auto
  show ?thesis
    using A h d a unfolding c by simp
qed

text \<open>
  The claim as stated fails on one record with 23 completed tasks of 40: the exact rate is
  57.5, which rounds to 58, and the stage returns 57, since the double-precision product
  \<open>(23 / 40) * 100\<close> is just below 57.5.
\<close>

theorem aggregate_totals_counterexample:
  "\<not> aggregate_claim collation_key_ru [stat 23 17 0]"
proof
  assume "aggregate_claim collation_key_ru [stat 23 17 0]"
  moreover have "sum_list (map completedTasks [stat 23 17 0]) = 23"
    "sum_list (map inWorkTasks [stat 23 17 0]) = 17"
    "sum_list (map failedTasks [stat 23 17 0]) = 0"
    by (simp_all add: stat_def)
  ultimately have "doneRate (selectGlobalKpis collation_key_ru [stat 23 17 0])
      = Num (of_int (round_half_up (100 * rat_of_nat 23 / rat_of_nat 40)))"
    by (simp add: aggregate_claim_def Let_def)
  then show False
    unfolding round_half_up_23_40 done_rate_23_40 by simp
qed

text \<open>
  Likewise 3 completed tasks over 40 records give 0.07 where the exact average 0.075 rounds
  to 0.08, and a sum beyond \<open>2\<^sup>5\<^sup>3\<close> is rounded: \<open>2\<^sup>5\<^sup>3 + 1\<close> is \<open>2\<^sup>5\<^sup>3\<close>.
\<close>

lemma binary64_3_40: "binary64 (3 / 40) = Num (5404319552844595 / 72057594037927936)"
  by (rule binary64_eval, simp, simp, code_simp)

lemma fixed_3_40: "\<lfloor>5404319552844595 / 72057594037927936 * 100 + 1 / 2 :: rat\<rfloor> = 7"
  by code_simp

lemma binary64_7_100: "binary64 (7 / 100) = Num (1261007895663739 / 18014398509481984)"
  by (rule binary64_eval, simp, simp, code_simp)

lemma binary64_8_100: "binary64 (8 / 100) = Num (5764607523034235 / 72057594037927936)"
  by (rule binary64_eval, simp, simp, code_simp)

lemma aggregate_average_example:
  "avgCompletedPerUser (selectGlobalKpis key (stat 3 0 0 # replicate 39 (stat 0 0 0)))
     = binary64 (7 / 100) \<and>
   round_half_up (100 * 3 / 40) = 8 \<and> binary64 (7 / 100) \<noteq> binary64 (8 / 100)"
proof -
  let ?X = "stat 3 0 0 # replicate 39 (stat 0 0 0)"
  have s: "sum_list (map completedTasks ?X) = 3" "sum_list (map total_tasks ?X) = 3"
    "length ?X = 40"
    by (simp_all add: stat_def total_tasks_def)
  have "sum_list (map total_tasks ?X) \<le> 2 ^ 40"
    unfolding s by simp
  then have "avgCompletedPerUser (selectGlobalKpis key ?X)
      = toFixed2 (js_divide (of_count 3) (of_count 40))"
    using kpis_fields(6) [of ?X key] unfolding s by simp
  also have "js_divide (of_count 3) (of_count 40) = Num (5404319552844595 / 72057594037927936)"
    using binary64_3_40 by (simp add: of_count_def)
  also have "toFixed2 (Num (5404319552844595 / 72057594037927936)) = binary64 (7 / 100)"
    using fixed_3_40 by (simp add: Let_def)
  finally have a: "avgCompletedPerUser (selectGlobalKpis key ?X) = binary64 (7 / 100)" .
  have r: "round_half_up (100 * 3 / 40) = 8"
    by code_simp
  show ?thesis
    using a r unfolding binary64_7_100 binary64_8_100 by simp
qed

lemma binary64_above_2_53: "binary64 (2 ^ 53 + 1) = Num (2 ^ 53)"
  by (rule binary64_eval, simp, simp, code_simp)

lemma aggregate_sum_example:
  "js_plus (of_count (2 ^ 53)) (of_count 1) = of_count (2 ^ 53) \<and>
   completed (selectGlobalKpis key [stat (2 ^ 53) 0 0, stat 1 0 0]) = of_count (2 ^ 53)"
proof -
  have a: "js_plus (of_count (2 ^ 53)) (of_count 1) = of_count (2 ^ 53)"
    using binary64_above_2_53 by (simp add: of_count_def)
  then have a': "js_plus (of_count 9007199254740992) (of_count (Suc 0)) = of_count 9007199254740992"
    by simp
  have "js_plus (Num 0) (of_count (2 ^ 53)) = of_count (2 ^ 53)"
    using binary64_nat [of "2 ^ 53"] by (simp add: of_count_def)
  then have "completed (selectGlobalKpis key [stat (2 ^ 53) 0 0, stat 1 0 0]) = of_count (2 ^ 53)"
    by (simp add: selectGlobalKpis_def sum_counts_def Let_def case_prod_beta stat_def a')
  then show ?thesis
    using a by simp
qed

subsection \<open>Top and leaderboard\<close>
















end
